theory Spec2Isabelle
  imports Complex_Main "HOL-Library.Word"
begin

section \<open>The voice-capture session of \<open>VoiceRecorder.tsx\<close>\<close>

text \<open>
  The component \<open>VoiceRecorder\<close> keeps its session in React state variables and
  reference cells, and reacts to recognizer events, timers and button clicks. The
  embedding below is one record for the cells, one HOL function per source function,
  and a small event loop with a logical clock (milliseconds) for the timers.

  A JavaScript string is a sequence of UTF-16 code units. Identifiers of one kind
  (timers, animation frames, media streams) are positive numbers handed out from a
  counter, as a browser hands them out.
\<close>

subsection \<open>Strings\<close>

type_synonym jsstring = "16 word list"

text \<open>
  \<open>String.prototype.trim\<close> removes the ECMAScript white space and line terminator
  code points from both ends.
\<close>

definition isWhiteSpace :: "16 word \<Rightarrow> bool" where
  "isWhiteSpace u \<longleftrightarrow>
     List.member
       [0x0009, 0x000A, 0x000B, 0x000C, 0x000D, 0x0020, 0x00A0, 0x1680,
        0x2000, 0x2001, 0x2002, 0x2003, 0x2004, 0x2005, 0x2006, 0x2007,
        0x2008, 0x2009, 0x200A, 0x2028, 0x2029, 0x202F, 0x205F, 0x3000, 0xFEFF] u"

definition trim :: "jsstring \<Rightarrow> jsstring" where
  "trim s = rev (dropWhile isWhiteSpace (rev (dropWhile isWhiteSpace s)))"

text \<open>A string is truthy in a condition exactly when it is not empty.\<close>

definition truthy :: "jsstring \<Rightarrow> bool" where
  "truthy s \<longleftrightarrow> s \<noteq> []"

subsection \<open>Data\<close>

text \<open>
  A handler is a closure: the names \<open>isRecording\<close> and \<open>transcript\<close> inside
  \<open>stopRecording\<close> and \<open>onend\<close> are the constants of the render that created the
  function, not cells that a later \<open>setIsRecording\<close> or \<open>setTranscript\<close> changes.
  The two captured values are therefore an explicit argument of every function that
  reads them, or that sets a timer whose callback reads them.

  The effect that installs the recognizer's handlers depends on
  \<open>[onInputChange, isRecording]\<close> and the effect that sets the duration interval on
  \<open>[isRecording]\<close>: both run again when \<open>isRecording\<close> changes and neither runs when
  \<open>transcript\<close> changes. The recognizer that \<open>startRecording\<close> starts is the one
  the first effect built in the render before, in which \<open>isRecording\<close> was false, so
  its handlers read \<open>isRecording\<close> as false. When \<open>setIsRecording(true)\<close> takes effect,
  the cleanup of that effect stops this recognizer and the effect builds a new one,
  which nothing starts. The duration interval is set by the render in which
  \<open>isRecording\<close> is true. Every result below says which closure it is about.
\<close>

record closure =
  c_isRecording :: bool
  c_transcript :: jsstring

datatype js_error = NotAllowedError | NotFoundError | NotSupportedError | InvalidStateError
  | TypeError

text \<open>What the component does to the outside: its two callbacks and the console.\<close>

datatype call =
    OnInputChange jsstring
  | OnRecordingComplete jsstring
  | LogRecognitionError string
  | LogMicrophoneError js_error

text \<open>
  The callback of a pending timer: the silence timeout set by \<open>onresult\<close> captures
  \<open>currentTranscript\<close> and the handler's closure; the interval set by the duration
  effect captures \<open>startTime\<close> and the effect's closure.
\<close>

datatype task = SilenceTask jsstring closure | DurationTask nat closure

record timer =
  tid :: nat
  due :: nat
  task :: task

datatype recorder_state = Inactive | Capturing

record media_recorder =
  stream :: nat
  rstate :: recorder_state

datatype recognizer = Idle | Listening

datatype context_state = Running | Closed

text \<open>
  One entry of \<open>event.results\<close>: the transcript of its first alternative
  (\<open>event.results[i][0].transcript\<close>) and its \<open>isFinal\<close> flag.
\<close>

record speech_result =
  alt0 :: jsstring
  isFinal :: bool

record result_event =
  resultIndex :: nat
  results :: "speech_result list"

text \<open>
  The React state (\<open>isRecording\<close> to \<open>recordingDuration\<close>), the reference cells
  (\<open>mediaRecorderRef\<close> to \<open>durationIntervalRef\<close>, \<open>None\<close> for \<open>null\<close>; the analyser is
  represented by its \<open>fftSize\<close>, a recorded chunk by a number), and the part of the
  browser the component acts on: the clock, the identifier counter, the
  pending timers in the order they were set, the pending animation-frame requests,
  the media streams whose tracks are live, and the calls made so far.
\<close>

record session =
  isRecording :: bool
  transcript :: jsstring
  isSpeaking :: bool
  volume :: real
  recordingDuration :: nat
  mediaRecorderRef :: "media_recorder option"
  recognitionRef :: "recognizer option"
  chunksRef :: "nat list"
  silenceTimeoutRef :: "nat option"
  audioContextRef :: "context_state option"
  analyserRef :: "nat option"
  dataArrayRef :: "8 word list option"
  animationFrameRef :: "nat option"
  durationIntervalRef :: "nat option"
  now :: nat
  nextId :: nat
  timers :: "timer list"
  frames :: "nat list"
  liveStreams :: "nat list"
  calls :: "call list"

text \<open>
  A function that can throw returns the session as it is when it returns or throws:
  what it changed before the exception stays changed.
\<close>

datatype outcome = Returned session | Thrown js_error session

definition SILENCE_THRESHOLD :: nat where
  "SILENCE_THRESHOLD = 2000"

definition MAX_RECORDING_DURATION :: nat where
  "MAX_RECORDING_DURATION = 60000"

subsection \<open>Browser operations\<close>

text \<open>
  \<open>setTimeout\<close> and \<open>setInterval\<close> return a fresh identifier and append the timer;
  \<open>clearTimeout\<close> and \<open>clearInterval\<close> share one pool of identifiers and do nothing
  for an identifier that is not pending. A reference cell holding an identifier is
  tested for truth before it is cleared (\<open>clearTimerRef\<close>): \<open>null\<close> and \<open>0\<close> are
  false.
\<close>

definition setTimer :: "task \<Rightarrow> nat \<Rightarrow> session \<Rightarrow> nat \<times> session" where
  "setTimer k delay s =
     (nextId s,
      s\<lparr>nextId := Suc (nextId s),
        timers := timers s @ [\<lparr>tid = nextId s, due = now s + delay, task = k\<rparr>]\<rparr>)"

definition clearTimer :: "nat \<Rightarrow> session \<Rightarrow> session" where
  "clearTimer i s = s\<lparr>timers := filter (\<lambda>t. tid t \<noteq> i) (timers s)\<rparr>"

definition clearTimerRef :: "nat option \<Rightarrow> session \<Rightarrow> session" where
  "clearTimerRef r s =
     (case r of None \<Rightarrow> s | Some i \<Rightarrow> if i \<noteq> 0 then clearTimer i s else s)"

text \<open>
  \<open>MediaRecorder.stop()\<close> inactivates a recorder and does nothing on an inactive
  one; its \<open>stop\<close> event is delivered later, to \<open>mediaRecorder_onstop\<close> below.
  \<open>SpeechRecognition.stop()\<close> ends listening; \<open>SpeechRecognition.start()\<close> throws
  \<open>InvalidStateError\<close> on a recognizer that is already listening.
\<close>

definition mediaRecorder_stop :: "session \<Rightarrow> session" where
  "mediaRecorder_stop s =
     (case mediaRecorderRef s of
        None \<Rightarrow> s
      | Some r \<Rightarrow> s\<lparr>mediaRecorderRef := Some (r\<lparr>rstate := Inactive\<rparr>)\<rparr>)"

definition recognition_stop :: "session \<Rightarrow> session" where
  "recognition_stop s =
     (case recognitionRef s of None \<Rightarrow> s | Some _ \<Rightarrow> s\<lparr>recognitionRef := Some Idle\<rparr>)"

definition recognition_start :: "session \<Rightarrow> outcome" where
  "recognition_start s =
     (case recognitionRef s of
        None \<Rightarrow> Returned s
      | Some Listening \<Rightarrow> Thrown InvalidStateError s
      | Some Idle \<Rightarrow> Returned (s\<lparr>recognitionRef := Some Listening\<rparr>))"

definition mediaRecorder_start :: "session \<Rightarrow> session" where
  "mediaRecorder_start s =
     (case mediaRecorderRef s of
        None \<Rightarrow> s
      | Some r \<Rightarrow> s\<lparr>mediaRecorderRef := Some (r\<lparr>rstate := Capturing\<rparr>)\<rparr>)"

text \<open>
  \<open>requestAnimationFrame\<close> and \<open>cancelAnimationFrame\<close>, the latter also behind the
  truth test of its reference cell; closing an audio context.
\<close>

definition requestAnimationFrame :: "session \<Rightarrow> nat \<times> session" where
  "requestAnimationFrame s =
     (nextId s, s\<lparr>nextId := Suc (nextId s), frames := frames s @ [nextId s]\<rparr>)"

definition cancelAnimationFrame :: "nat \<Rightarrow> session \<Rightarrow> session" where
  "cancelAnimationFrame i s = s\<lparr>frames := removeAll i (frames s)\<rparr>"

definition cancelFrameRef :: "nat option \<Rightarrow> session \<Rightarrow> session" where
  "cancelFrameRef r s =
     (case r of None \<Rightarrow> s | Some i \<Rightarrow> if i \<noteq> 0 then cancelAnimationFrame i s else s)"

definition context_open :: "session \<Rightarrow> bool" where
  "context_open s \<longleftrightarrow> audioContextRef s \<noteq> None \<and> audioContextRef s \<noteq> Some Closed"

definition audioContext_close :: "session \<Rightarrow> session" where
  "audioContext_close s = s\<lparr>audioContextRef := Some Closed\<rparr>"

subsection \<open>\<open>stopRecording\<close>\<close>

definition stopRecording :: "closure \<Rightarrow> session \<Rightarrow> session" where
  "stopRecording c s =
     (if mediaRecorderRef s \<noteq> None \<and> c_isRecording c then
        let s1 = mediaRecorder_stop s;
            s2 = (if recognitionRef s1 \<noteq> None then recognition_stop s1 else s1);
            s3 = clearTimerRef (silenceTimeoutRef s2) s2;
            s4 = s3\<lparr>isRecording := False\<rparr>;
            s5 = s4\<lparr>isSpeaking := False\<rparr>;
            s6 = (if truthy (trim (c_transcript c))
                  then s5\<lparr>calls := calls s5 @ [OnRecordingComplete (c_transcript c)]\<rparr>
                  else s5)
        in s6\<lparr>transcript := []\<rparr>
      else s)"

subsection \<open>The recognizer's handlers\<close>

text \<open>
  The loop of \<open>onresult\<close>: \<open>i\<close> runs from \<open>event.resultIndex\<close> up to
  \<open>event.results.length\<close>, appending each transcript to \<open>finalTranscript\<close> or to
  \<open>interimTranscript\<close>.
\<close>

function onresult_loop ::
  "speech_result list \<Rightarrow> nat \<Rightarrow> jsstring \<times> jsstring \<Rightarrow> jsstring \<times> jsstring" where
  "onresult_loop rs i (finalTranscript, interimTranscript) =
     (if i < length rs then
        (if isFinal (rs ! i)
         then onresult_loop rs (Suc i) (finalTranscript @ alt0 (rs ! i), interimTranscript)
         else onresult_loop rs (Suc i) (finalTranscript, interimTranscript @ alt0 (rs ! i)))
      else (finalTranscript, interimTranscript))"
  by pat_completeness auto
termination
  by (relation "measure (\<lambda>(rs, i, _). length rs - i)") auto

declare onresult_loop.simps [simp del]

text \<open>\<open>finalTranscript || interimTranscript\<close>\<close>

definition currentTranscript :: "result_event \<Rightarrow> jsstring" where
  "currentTranscript ev =
     (let (finalTranscript, interimTranscript) =
            onresult_loop (results ev) (resultIndex ev) ([], [])
      in if truthy finalTranscript then finalTranscript else interimTranscript)"

definition onresult :: "closure \<Rightarrow> result_event \<Rightarrow> session \<Rightarrow> session" where
  "onresult c ev s =
     (let cur = currentTranscript ev;
          s1 = s\<lparr>transcript := cur\<rparr>;
          s2 = s1\<lparr>calls := calls s1 @ [OnInputChange cur]\<rparr>;
          s3 = clearTimerRef (silenceTimeoutRef s2) s2;
          (i, s4) = setTimer (SilenceTask cur c) SILENCE_THRESHOLD s3
      in s4\<lparr>silenceTimeoutRef := Some i\<rparr>)"

text \<open>\<open>onerror\<close> and \<open>onend\<close>; \<open>event.error\<close> is the error's code.\<close>

definition onerror :: "closure \<Rightarrow> string \<Rightarrow> session \<Rightarrow> session" where
  "onerror c err s =
     (let s1 = s\<lparr>calls := calls s @ [LogRecognitionError err]\<rparr>
      in if err = ''no-speech'' then stopRecording c s1 else s1)"

definition onend :: "closure \<Rightarrow> session \<Rightarrow> outcome" where
  "onend c s = (if c_isRecording c then recognition_start s else Returned s)"

subsection \<open>\<open>cleanup\<close>\<close>

definition cleanup :: "session \<Rightarrow> session" where
  "cleanup s =
     (let s1 = (if recognitionRef s \<noteq> None then recognition_stop s else s);
          s2 = clearTimerRef (silenceTimeoutRef s1) s1;
          s3 = cancelFrameRef (animationFrameRef s2) s2;
          s4 = clearTimerRef (durationIntervalRef s3) s3;
          s5 = (if context_open s4 then audioContext_close s4 else s4)
      in s5\<lparr>recordingDuration := 0\<rparr>)"

subsection \<open>The level monitor\<close>

text \<open>
  \<open>getByteFrequencyData\<close> copies the analyser's bins into the array, as many as fit.
  \<open>reduce((a, b) => a + b)\<close> with no initial value throws \<open>TypeError\<close> on an empty
  array and otherwise folds from the first element; the elements of a \<open>Uint8Array\<close>
  are read as numbers (\<open>byte\<close>), so the sum does not wrap.

  Numbers are modelled as reals. For the array the component allocates (128 bins, the
  \<open>frequencyBinCount\<close> of an \<open>fftSize\<close> of 256) the sum is an integer below \<open>2^15\<close>
  and both divisions are by \<open>128\<close>, so IEEE double arithmetic computes exactly these
  values.
\<close>

definition getByteFrequencyData :: "8 word list \<Rightarrow> 8 word list \<Rightarrow> 8 word list" where
  "getByteFrequencyData bins arr = take (length arr) bins @ drop (length bins) arr"

definition byte :: "8 word \<Rightarrow> real" where
  "byte b = real (unat b)"

definition reduce_add :: "8 word list \<Rightarrow> js_error + real" where
  "reduce_add xs =
     (case xs of
        [] \<Rightarrow> Inl TypeError
      | x # ys \<Rightarrow> Inr (foldl (\<lambda>a b. a + byte b) (byte x) ys))"

definition checkAudioLevel :: "8 word list \<Rightarrow> session \<Rightarrow> outcome" where
  "checkAudioLevel bins s =
     (case (analyserRef s, dataArrayRef s) of
        (Some _, Some arr) \<Rightarrow>
          (let s1 = s\<lparr>dataArrayRef := Some (getByteFrequencyData bins arr)\<rparr>
           in case reduce_add (getByteFrequencyData bins arr) of
                Inl e \<Rightarrow> Thrown e s1
              | Inr acc \<Rightarrow>
                  (let average = acc / real (length (getByteFrequencyData bins arr));
                       normalizedVolume = min (average / 128) 1;
                       s2 = s1\<lparr>volume := normalizedVolume\<rparr>;
                       s3 = s2\<lparr>isSpeaking := (normalizedVolume > 0.15)\<rparr>;
                       (i, s4) = requestAnimationFrame s3
                   in Returned (s4\<lparr>animationFrameRef := Some i\<rparr>)))
      | _ \<Rightarrow> Thrown TypeError s)"

definition analyzeAudio :: "8 word list \<Rightarrow> session \<Rightarrow> outcome" where
  "analyzeAudio bins s =
     (if analyserRef s = None \<or> dataArrayRef s = None then Returned s
      else checkAudioLevel bins s)"

text \<open>The browser runs a pending frame request with the bins of that moment.\<close>

definition run_frame :: "nat \<Rightarrow> 8 word list \<Rightarrow> session \<Rightarrow> outcome" where
  "run_frame i bins s =
     (if List.member (frames s) i
      then checkAudioLevel bins (s\<lparr>frames := removeAll i (frames s)\<rparr>)
      else Returned s)"

subsection \<open>\<open>startRecording\<close>\<close>

text \<open>
  What the browser answers during one attempt: for each call that can fail, the error
  it throws (\<open>None\<close> when it succeeds), and the bins of the first level sample.
\<close>

record start_env =
  getUserMedia_error :: "js_error option"
  mediaRecorder_ctor_error :: "js_error option"
  audioContext_ctor_error :: "js_error option"
  mediaStreamSource_error :: "js_error option"
  mediaRecorder_start_error :: "js_error option"
  first_bins :: "8 word list"

text \<open>The body of the \<open>try\<close> block.\<close>

definition startRecording_try :: "start_env \<Rightarrow> session \<Rightarrow> outcome" where
  "startRecording_try e s =
     (let s1 = (if context_open s then audioContext_close s else s)
      in case getUserMedia_error e of Some err \<Rightarrow> Thrown err s1 | None \<Rightarrow>
      let strm = nextId s1;
          s2 = s1\<lparr>nextId := Suc strm, liveStreams := liveStreams s1 @ [strm]\<rparr>
      in case mediaRecorder_ctor_error e of Some err \<Rightarrow> Thrown err s2 | None \<Rightarrow>
      let s3 = s2\<lparr>mediaRecorderRef := Some \<lparr>stream = strm, rstate = Inactive\<rparr>\<rparr>;
          s4 = s3\<lparr>chunksRef := []\<rparr>
      in case audioContext_ctor_error e of Some err \<Rightarrow> Thrown err s4 | None \<Rightarrow>
      let s5 = s4\<lparr>audioContextRef := Some Running\<rparr>;
          s6 = s5\<lparr>analyserRef := Some 2048\<rparr>
      in case mediaStreamSource_error e of Some err \<Rightarrow> Thrown err s6 | None \<Rightarrow>
      let s7 = s6\<lparr>analyserRef := Some 256\<rparr>;
          s8 = s7\<lparr>dataArrayRef := Some (replicate (256 div 2) 0)\<rparr>
      in case analyzeAudio (first_bins e) s8 of Thrown err s9 \<Rightarrow> Thrown err s9
         | Returned s9 \<Rightarrow>
      (case mediaRecorder_start_error e of Some err \<Rightarrow> Thrown err s9 | None \<Rightarrow>
      let s10 = mediaRecorder_start s9
      in case (if recognitionRef s10 \<noteq> None then recognition_start s10 else Returned s10) of
           Thrown err s11 \<Rightarrow> Thrown err s11
         | Returned s11 \<Rightarrow> Returned (s11\<lparr>isRecording := True\<rparr>)))"

definition startRecording :: "start_env \<Rightarrow> session \<Rightarrow> session" where
  "startRecording e s =
     (case startRecording_try e s of
        Returned s' \<Rightarrow> s'
      | Thrown err s' \<Rightarrow> cleanup (s'\<lparr>calls := calls s' @ [LogMicrophoneError err]\<rparr>))"

text \<open>
  \<open>mediaRecorder.ondataavailable\<close> (a chunk is an opaque number) and
  \<open>mediaRecorder.onstop\<close>, for the recorder built over the stream \<open>strm\<close>: the only
  place where the tracks of a stream are stopped.
\<close>

definition mediaRecorder_ondataavailable :: "nat \<Rightarrow> session \<Rightarrow> session" where
  "mediaRecorder_ondataavailable blob s = s\<lparr>chunksRef := chunksRef s @ [blob]\<rparr>"

definition mediaRecorder_onstop :: "nat \<Rightarrow> session \<Rightarrow> session" where
  "mediaRecorder_onstop strm s = cleanup (s\<lparr>liveStreams := removeAll strm (liveStreams s)\<rparr>)"

subsection \<open>The effects\<close>

text \<open>
  The first effect builds the recognizer when the browser has one; its handlers are
  \<open>onresult\<close>, \<open>onerror\<close> and \<open>onend\<close> above, with the closure of the render the
  effect belongs to. The second effect sets the duration interval when that render's
  \<open>isRecording\<close> is true.
\<close>

definition speechEffect :: "bool \<Rightarrow> session \<Rightarrow> session" where
  "speechEffect supported s = (if supported then s\<lparr>recognitionRef := Some Idle\<rparr> else s)"

definition speechEffect_cleanup :: "session \<Rightarrow> session" where
  "speechEffect_cleanup s = cleanup s"

definition durationEffect :: "closure \<Rightarrow> session \<Rightarrow> session" where
  "durationEffect c s =
     (if c_isRecording c then
        let startTime = now s;
            (i, s1) = setTimer (DurationTask startTime c) 100 s
        in s1\<lparr>durationIntervalRef := Some i\<rparr>
      else s)"

definition durationEffect_cleanup :: "session \<Rightarrow> session" where
  "durationEffect_cleanup s = clearTimerRef (durationIntervalRef s) s"

text \<open>The callbacks of the two timers.\<close>

definition silence_callback :: "jsstring \<Rightarrow> closure \<Rightarrow> session \<Rightarrow> session" where
  "silence_callback cur c s = (if truthy (trim cur) then stopRecording c s else s)"

definition duration_callback :: "nat \<Rightarrow> closure \<Rightarrow> session \<Rightarrow> session" where
  "duration_callback startTime c s =
     (let duration = now s - startTime;
          s1 = s\<lparr>recordingDuration := duration\<rparr>
      in if duration \<ge> MAX_RECORDING_DURATION then stopRecording c s1 else s1)"

subsection \<open>The clock\<close>

text \<open>
  Time passes one millisecond at a time. At each instant the timers that are due run
  in the order they were set; one that an earlier callback of the same instant has
  cleared does not run. A timeout is removed before its callback runs; an interval
  that its callback has not cleared is set again, 100 ms later, after the callback.
\<close>

definition run_timer :: "timer \<Rightarrow> session \<Rightarrow> session" where
  "run_timer t s =
     (case task t of
        SilenceTask cur c \<Rightarrow> silence_callback cur c (clearTimer (tid t) s)
      | DurationTask startTime c \<Rightarrow>
          (let s1 = duration_callback startTime c s
           in if List.member (map tid (timers s1)) (tid t)
              then s1\<lparr>timers :=
                      filter (\<lambda>u. tid u \<noteq> tid t) (timers s1) @ [t\<lparr>due := due t + 100\<rparr>]\<rparr>
              else s1))"

fun run_due :: "nat list \<Rightarrow> session \<Rightarrow> session" where
  "run_due [] s = s"
| "run_due (i # ids) s =
     run_due ids (case find (\<lambda>t. tid t = i) (timers s) of None \<Rightarrow> s | Some t \<Rightarrow> run_timer t s)"

definition tick :: "session \<Rightarrow> session" where
  "tick s =
     (let s1 = s\<lparr>now := Suc (now s)\<rparr>
      in run_due (map tid (filter (\<lambda>t. due t \<le> now s1) (timers s1))) s1)"

primrec advance :: "nat \<Rightarrow> session \<Rightarrow> session" where
  "advance 0 s = s"
| "advance (Suc n) s = advance n (tick s)"

subsection \<open>The component when it mounts\<close>

definition initial :: session where
  "initial =
     \<lparr>isRecording = False, transcript = [], isSpeaking = False, volume = 0,
      recordingDuration = 0, mediaRecorderRef = None, recognitionRef = None,
      chunksRef = [], silenceTimeoutRef = None, audioContextRef = None,
      analyserRef = None, dataArrayRef = None, animationFrameRef = None,
      durationIntervalRef = None, now = 0, nextId = 1, timers = [], frames = [],
      liveStreams = [], calls = []\<rparr>"

definition mounted :: session where
  "mounted = speechEffect True initial"

subsection \<open>What the specification says of a batch\<close>

text \<open>
  The fragments of a batch from its start index onward, and their texts concatenated
  per finality, as the specification words it.
\<close>

definition batch_fragments :: "result_event \<Rightarrow> speech_result list" where
  "batch_fragments ev = drop (resultIndex ev) (results ev)"

definition final_text :: "result_event \<Rightarrow> jsstring" where
  "final_text ev = concat (map alt0 (filter isFinal (batch_fragments ev)))"

definition interim_text :: "result_event \<Rightarrow> jsstring" where
  "interim_text ev = concat (map alt0 (filter (\<lambda>r. \<not> isFinal r) (batch_fragments ev)))"

text \<open>The arithmetic mean of a buffer of bins.\<close>

definition arithmetic_mean :: "8 word list \<Rightarrow> real" where
  "arithmetic_mean xs = (\<Sum>x\<leftarrow>xs. byte x) / real (length xs)"

subsection \<open>Concrete sessions\<close>

text \<open>
  An attempt in which every call succeeds, and the session it leaves when the
  component has just mounted; the same session when its recognizer has ended; an
  attempt in which the microphone is granted and \<open>new MediaRecorder\<close> throws.
\<close>

definition ok_env :: start_env where
  "ok_env =
     \<lparr>getUserMedia_error = None, mediaRecorder_ctor_error = None,
      audioContext_ctor_error = None, mediaStreamSource_error = None,
      mediaRecorder_start_error = None, first_bins = []\<rparr>"

definition started :: session where
  "started = startRecording ok_env mounted"

definition ended :: session where
  "ended = started\<lparr>recognitionRef := Some Idle\<rparr>"

definition ctor_fails :: start_env where
  "ctor_fails = ok_env\<lparr>mediaRecorder_ctor_error := Some NotSupportedError\<rparr>"

text \<open>
  After \<open>startRecording\<close> the component renders with \<open>isRecording\<close> true: the cleanups
  of both effects run, then the first effect builds its recognizer again
  (\<open>after_start\<close>), then the second effect sets the duration interval
  (\<open>recording_session\<close>, defined below with the closure of that render).
\<close>

definition after_start :: session where
  "after_start = speechEffect True (durationEffect_cleanup (speechEffect_cleanup started))"

text \<open>
  The closures of two renders, both with an empty \<open>transcript\<close>: the render in which
  recording has begun and no batch has arrived yet, and a render in which the
  component is not recording.
\<close>

definition recording_closure :: closure where
  "recording_closure = \<lparr>c_isRecording = True, c_transcript = []\<rparr>"

definition idle_closure :: closure where
  "idle_closure = \<lparr>c_isRecording = False, c_transcript = []\<rparr>"


definition recording_session :: session where
  "recording_session = durationEffect recording_closure after_start"

text \<open>
  Batches: one final fragment \<open>hi\<close>; one interim fragment that is a single space;
  one final fragment \<open>a\<close>; and the batch that follows it in a continuous
  recognition, where \<open>results\<close> has grown by the final fragment \<open>b\<close> and
  \<open>resultIndex\<close> points at it.
\<close>

definition batch_hi :: result_event where
  "batch_hi = \<lparr>resultIndex = 0, results = [\<lparr>alt0 = [0x68, 0x69], isFinal = True\<rparr>]\<rparr>"

definition batch_blank :: result_event where
  "batch_blank = \<lparr>resultIndex = 0, results = [\<lparr>alt0 = [0x20], isFinal = False\<rparr>]\<rparr>"

definition batch_a :: result_event where
  "batch_a = \<lparr>resultIndex = 0, results = [\<lparr>alt0 = [0x61], isFinal = True\<rparr>]\<rparr>"

definition batch_ab :: result_event where
  "batch_ab =
     \<lparr>resultIndex = 1,
      results = [\<lparr>alt0 = [0x61], isFinal = True\<rparr>, \<lparr>alt0 = [0x62], isFinal = True\<rparr>]\<rparr>"

subsection \<open>Sequences of events\<close>

text \<open>
  The recognizer delivers batches in order to the handler with closure \<open>h\<close>: one
  after the other (\<open>deliver\<close>), or each after a gap of so many milliseconds
  (\<open>feed\<close>; \<open>elapsed\<close> is the sum of the gaps).
\<close>

definition deliver :: "closure \<Rightarrow> result_event list \<Rightarrow> session \<Rightarrow> session" where
  "deliver h evs s = foldl (\<lambda>s ev. onresult h ev s) s evs"

definition feed :: "closure \<Rightarrow> (nat \<times> result_event) list \<Rightarrow> session \<Rightarrow> session" where
  "feed h xs s = foldl (\<lambda>s (gap, ev). onresult h ev (advance gap s)) s xs"

definition elapsed :: "(nat \<times> result_event) list \<Rightarrow> nat" where
  "elapsed xs = sum_list (map fst xs)"

subsection \<open>The timers of a recording session\<close>

text \<open>
  The invariant of the proofs about time. The session is recording and has a
  recorder; the duration interval \<open>iid\<close>, set at \<open>t0\<close> with closure \<open>c\<close>, is pending
  and due at a multiple of 100 ms after \<open>t0\<close>, within the next 100 ms; the other
  pending timers are \<open>sil\<close>, each the silence timeout that \<open>silenceTimeoutRef\<close> holds.
\<close>

definition session_inv :: "nat \<Rightarrow> closure \<Rightarrow> nat \<Rightarrow> timer list \<Rightarrow> session \<Rightarrow> bool" where
  "session_inv t0 c iid sil s \<longleftrightarrow>
     isRecording s \<and> mediaRecorderRef s \<noteq> None \<and> iid < nextId s \<and>
     silenceTimeoutRef s \<noteq> Some iid \<and>
     (\<forall>t \<in> set sil. tid t \<noteq> iid \<and> tid t \<noteq> 0 \<and> silenceTimeoutRef s = Some (tid t)) \<and>
     (\<exists>d j. d = t0 + 100 * j \<and> now s < d \<and> d \<le> now s + 100 \<and>
        (timers s = \<lparr>tid = iid, due = d, task = DurationTask t0 c\<rparr> # sil \<or>
         timers s = sil @ [\<lparr>tid = iid, due = d, task = DurationTask t0 c\<rparr>]))"

text \<open>At most one silence timeout is pending, and it is due in the future.\<close>

definition pending_silence :: "timer list \<Rightarrow> session \<Rightarrow> bool" where
  "pending_silence sil s =
     (case sil of
        [] \<Rightarrow> True
      | [t] \<Rightarrow> now s < due t \<and>
          (case task t of SilenceTask _ _ \<Rightarrow> True | DurationTask _ _ \<Rightarrow> False)
      | _ \<Rightarrow> False)"

section \<open>Results\<close>

subsection \<open>The loop of \<open>onresult\<close>\<close>

lemma onresult_loop_eq:
  "onresult_loop rs i (f, g) =
     (f @ concat (map alt0 (filter isFinal (drop i rs))),
      g @ concat (map alt0 (filter (\<lambda>r. \<not> isFinal r) (drop i rs))))"
proof (induction "length rs - i" arbitrary: i f g)
  case 0
  then show ?case by (simp add: onresult_loop.simps [of rs i])
next
  case (Suc n)
  then have lt: "i < length rs" and n: "n = length rs - Suc i"
    by simp_all
  from lt have d: "drop i rs = rs ! i # drop (Suc i) rs"
    by (simp add: Cons_nth_drop_Suc)
  show ?case
    using lt Suc.hyps(1) [OF n] by (simp add: onresult_loop.simps [of rs i] d)
qed

lemma currentTranscript_eq:
  "currentTranscript ev = (if final_text ev \<noteq> [] then final_text ev else interim_text ev)"
  unfolding currentTranscript_def onresult_loop_eq final_text_def interim_text_def
    batch_fragments_def truthy_def
  by (simp del: concat_eq_Nil_conv)

lemma clearTimerRef_frame [simp]:
  "transcript (clearTimerRef r s) = transcript s"
  "calls (clearTimerRef r s) = calls s"
  "isRecording (clearTimerRef r s) = isRecording s"
  "mediaRecorderRef (clearTimerRef r s) = mediaRecorderRef s"
  "recognitionRef (clearTimerRef r s) = recognitionRef s"
  "silenceTimeoutRef (clearTimerRef r s) = silenceTimeoutRef s"
  "nextId (clearTimerRef r s) = nextId s"
  "now (clearTimerRef r s) = now s"
  by (simp_all add: clearTimerRef_def clearTimer_def split: option.splits)

text \<open>
  C1. Whatever the transcript was before, after a batch of results it is the text
  of that batch alone: the final fragments from the start index onward concatenated,
  when that concatenation is not empty, and the interim ones concatenated otherwise.
\<close>

theorem onresult_transcript:
  "transcript (onresult c ev s) =
     (if final_text ev \<noteq> [] then final_text ev else interim_text ev)"
  by (simp add: onresult_def Let_def setTimer_def split_def currentTranscript_eq)

subsection \<open>Sequences of batches\<close>

lemma onresult_frame:
  "calls (onresult h ev s) = calls s @ [OnInputChange (currentTranscript ev)]"
  "transcript (onresult h ev s) = currentTranscript ev"
  "timers (onresult h ev s) =
     timers (clearTimerRef (silenceTimeoutRef s) s) @
     [\<lparr>tid = nextId s, due = now s + 2000, task = SilenceTask (currentTranscript ev) h\<rparr>]"
  by (simp_all add: onresult_def Let_def setTimer_def split_def SILENCE_THRESHOLD_def
      clearTimerRef_def clearTimer_def split: option.splits)

lemma deliver_snoc: "deliver h (evs @ [ev]) s = onresult h ev (deliver h evs s)"
  by (simp add: deliver_def)

text \<open>
  C2, as amended. After a sequence of batches that is not empty, the transcript is
  the text of the last batch alone: the concatenation of its final fragments from its
  start index onward when that is not empty, and of its interim fragments otherwise.
  The final fragments of earlier batches are not part of it.
\<close>

theorem transcript_is_last_batch:
  assumes "evs \<noteq> []"
  shows "transcript (deliver h evs s) =
           (if final_text (last evs) \<noteq> [] then final_text (last evs)
            else interim_text (last evs))"
proof -
  from assms obtain ys y where "evs = ys @ [y]"
    by (cases evs rule: rev_cases) auto
  then show ?thesis
    by (simp add: deliver_snoc onresult_frame(2) currentTranscript_eq)
qed

lemma final_text_batch_a: "final_text batch_a = [0x61]"
  by (simp add: final_text_def batch_fragments_def batch_a_def)

lemma final_text_batch_ab: "final_text batch_ab = [0x62]"
  by (simp add: final_text_def batch_fragments_def batch_ab_def)

theorem transcript_is_last_batch_witness:
  "transcript (deliver recording_closure [batch_a, batch_ab] mounted) = [0x62]"
  using transcript_is_last_batch [of "[batch_a, batch_ab]" recording_closure mounted]
  by (simp add: final_text_batch_ab)

text \<open>
  The claim as stated fails on two batches with one final fragment each: the
  transcript after both is \<open>b\<close>, and the final fragments seen so far concatenate to
  \<open>ab\<close>.
\<close>

theorem earlier_finals_are_dropped:
  "transcript (deliver idle_closure [batch_a, batch_ab] mounted) = [0x62] \<and>
   concat (map final_text [batch_a, batch_ab]) = [0x61, 0x62] \<and>
   transcript (deliver idle_closure [batch_a, batch_ab] mounted) \<noteq>
     concat (map final_text [batch_a, batch_ab])"
  by (simp add: deliver_def onresult_frame(2) currentTranscript_eq final_text_batch_a
      final_text_batch_ab)

subsection \<open>A started session\<close>

lemmas start_defs = startRecording_def startRecording_try_def mounted_def
  initial_def speechEffect_def context_open_def analyzeAudio_def checkAudioLevel_def
  getByteFrequencyData_def reduce_add_def requestAnimationFrame_def mediaRecorder_start_def
  recognition_start_def Let_def

lemma started_facts:
  "isRecording started"
  "mediaRecorderRef started = Some \<lparr>stream = 1, rstate = Capturing\<rparr>"
  "timers started = []"
  "silenceTimeoutRef started = None"
  "transcript started = []"
  "nextId started = 3"
  "calls started = []"
  "recognitionRef started = Some Listening"
  "now started = 0"
  "analyserRef started = Some 256"
  by (simp_all add: started_def ok_env_def start_defs split: list.split)

subsection \<open>Stopping\<close>

lemma stopRecording_stops:
  assumes "mediaRecorderRef s = Some r" "c_isRecording c"
  shows "\<not> isRecording (stopRecording c s)"
    "mediaRecorderRef (stopRecording c s) = Some (r\<lparr>rstate := Inactive\<rparr>)"
    "recognitionRef (stopRecording c s) \<noteq> Some Listening"
    "transcript (stopRecording c s) = []"
  using assms
  by (auto simp: stopRecording_def Let_def mediaRecorder_stop_def recognition_stop_def
      clearTimerRef_def clearTimer_def split: option.splits)

subsection \<open>A failed start\<close>

text \<open>
  C8. Evaluation at the failing attempt: the microphone is granted and the
  \<open>MediaRecorder\<close> constructor throws. The error is logged and the session is not
  recording, but the stream acquired in this attempt still has live tracks:
  \<open>cleanup\<close> does not stop them. The recorder's \<open>onstop\<close> handler is the path that
  does.
\<close>

theorem startRecording_leaves_tracks_live:
  "liveStreams (startRecording ctor_fails mounted) = [1] \<and>
   \<not> isRecording (startRecording ctor_fails mounted) \<and>
   calls (startRecording ctor_fails mounted) = [LogMicrophoneError NotSupportedError] \<and>
   liveStreams (mediaRecorder_onstop 1 (startRecording ctor_fails mounted)) = []"
  by (simp add: ctor_fails_def ok_env_def start_defs cleanup_def recognition_stop_def
      clearTimerRef_def cancelFrameRef_def audioContext_close_def mediaRecorder_onstop_def)

subsection \<open>The level monitor\<close>

lemma foldl_add: "foldl (\<lambda>a b. a + byte b) a xs = a + (\<Sum>x\<leftarrow>xs. byte x)"
  by (induction xs arbitrary: a) simp_all

lemma reduce_add_eq: "xs \<noteq> [] \<Longrightarrow> reduce_add xs = Inr (\<Sum>x\<leftarrow>xs. byte x)"
  by (cases xs) (simp_all add: reduce_add_def foldl_add)

lemma sum_const:
  "set xs \<subseteq> {k} \<Longrightarrow> (\<Sum>x\<leftarrow>xs. byte x) = real (length xs) * byte k"
  by (induction xs) (simp_all add: algebra_simps)

lemma byte_bounds: "0 \<le> byte x"
  unfolding byte_def by (rule of_nat_0_le_iff)

lemma byte_128: "byte 128 = 128"
  by (simp add: byte_def)

lemma byte_0: "byte 0 = 0"
  by (simp add: byte_def)

lemma mean_nonneg: "0 \<le> arithmetic_mean xs"
  unfolding arithmetic_mean_def
  by (intro divide_nonneg_nonneg sum_list_nonneg) (auto simp: byte_bounds)

text \<open>
  C9. A level sample over a buffer that is not empty returns, the volume it sets is
  the arithmetic mean of the bins divided by 128 and capped at 1, and the speaking
  flag it sets says whether that volume exceeds 0.15. The volume lies between 0 and
  1; it is 1 when every bin is 128 and 0 when every bin is 0.
\<close>

theorem checkAudioLevel_volume:
  assumes "analyserRef s = Some n" "dataArrayRef s = Some arr"
    and "buf = getByteFrequencyData bins arr" "buf \<noteq> []"
  shows "\<exists>s'. checkAudioLevel bins s = Returned s' \<and>
           volume s' = min (arithmetic_mean buf / 128) 1 \<and>
           isSpeaking s' = (volume s' > 0.15) \<and>
           0 \<le> volume s' \<and> volume s' \<le> 1 \<and>
           (set buf \<subseteq> {128} \<longrightarrow> volume s' = 1) \<and>
           (set buf \<subseteq> {0} \<longrightarrow> volume s' = 0)"
proof -
  have m128: "set buf \<subseteq> {128} \<Longrightarrow> arithmetic_mean buf = 128"
    using assms(4) by (simp add: arithmetic_mean_def sum_const byte_128)
  have m0: "set buf \<subseteq> {0} \<Longrightarrow> arithmetic_mean buf = 0"
    by (simp add: arithmetic_mean_def sum_const byte_0)
  show ?thesis
    using assms mean_nonneg [of buf] m128 m0
    by (auto simp: checkAudioLevel_def reduce_add_eq Let_def requestAnimationFrame_def
        arithmetic_mean_def)
qed

theorem checkAudioLevel_volume_witness:
  "(\<exists>s'. checkAudioLevel (replicate 128 128) started = Returned s' \<and>
         volume s' = 1 \<and> isSpeaking s') \<and>
   (\<exists>s'. checkAudioLevel (replicate 128 0) started = Returned s' \<and>
         volume s' = 0 \<and> \<not> isSpeaking s')"
proof -
  have a: "analyserRef started = Some 256"
    by (rule started_facts)
  have d: "dataArrayRef started = Some (replicate 128 0)"
    by (simp add: started_def ok_env_def start_defs split: list.split)
  have b: "replicate 128 x = getByteFrequencyData (replicate 128 x) (replicate 128 0)"
    "replicate 128 x \<noteq> []" "set (replicate 128 x) \<subseteq> {x}" for x :: "8 word"
    by (simp_all add: getByteFrequencyData_def)
  have "\<exists>s'. checkAudioLevel (replicate 128 128) started = Returned s' \<and>
      volume s' = 1 \<and> isSpeaking s'"
    using checkAudioLevel_volume [OF a d b(1,2), of 128] b(3) [of 128] by auto
  moreover have "\<exists>s'. checkAudioLevel (replicate 128 0) started = Returned s' \<and>
      volume s' = 0 \<and> \<not> isSpeaking s'"
    using checkAudioLevel_volume [OF a d b(1,2), of 0] b(3) [of 0] by auto
  ultimately show ?thesis by blast
qed

subsection \<open>Time: the invariant of a recording session\<close>

lemma session_invI:
  assumes "isRecording s" "mediaRecorderRef s \<noteq> None" "iid < nextId s"
    "silenceTimeoutRef s \<noteq> Some iid"
    "\<forall>t \<in> set sil. tid t \<noteq> iid \<and> tid t \<noteq> 0 \<and> silenceTimeoutRef s = Some (tid t)"
    "d = t0 + 100 * j" "now s < d" "d \<le> now s + 100"
    "timers s = \<lparr>tid = iid, due = d, task = DurationTask t0 c\<rparr> # sil \<or>
     timers s = sil @ [\<lparr>tid = iid, due = d, task = DurationTask t0 c\<rparr>]"
  shows "session_inv t0 c iid sil s"
  unfolding session_inv_def using assms by blast

lemma find_skip: "\<forall>t \<in> set xs. \<not> P t \<Longrightarrow> find P (xs @ ys) = find P ys"
  by (induction xs) simp_all

lemma filter_none: "\<forall>t \<in> set xs. \<not> P t \<Longrightarrow> filter P xs = []"
  by (induction xs) simp_all

lemma filter_all: "\<forall>t \<in> set xs. P t \<Longrightarrow> filter P xs = xs"
  by (induction xs) simp_all

text \<open>
  One millisecond in which no silence timeout is due and the cap is not reached: at
  most the interval runs, and only the clock, the displayed duration and the timers
  change.
\<close>

lemma tick_quiet:
  assumes inv: "session_inv t0 c iid sil s"
    and nodue: "\<forall>t \<in> set sil. Suc (now s) < due t"
    and cap: "Suc (now s) < t0 + MAX_RECORDING_DURATION"
  shows "session_inv t0 c iid sil (tick s) \<and>
         (\<exists>R ts. tick s = s\<lparr>now := Suc (now s), recordingDuration := R, timers := ts\<rparr>)"
proof -
  from inv obtain d j where d: "d = t0 + 100 * j" "now s < d" "d \<le> now s + 100"
    and shape: "timers s = \<lparr>tid = iid, due = d, task = DurationTask t0 c\<rparr> # sil \<or>
         timers s = sil @ [\<lparr>tid = iid, due = d, task = DurationTask t0 c\<rparr>]"
    and rest: "isRecording s" "mediaRecorderRef s \<noteq> None" "iid < nextId s"
      "silenceTimeoutRef s \<noteq> Some iid"
      "\<forall>t \<in> set sil. tid t \<noteq> iid \<and> tid t \<noteq> 0 \<and> silenceTimeoutRef s = Some (tid t)"
    unfolding session_inv_def by blast
  let ?iv = "\<lparr>tid = iid, due = d, task = DurationTask t0 c\<rparr>"
  have f0: "filter (\<lambda>t. due t \<le> Suc (now s)) sil = []"
    using nodue by (intro filter_none) auto
  have f1: "filter (\<lambda>u. tid u \<noteq> iid) sil = sil"
    using rest(5) by (intro filter_all) auto
  have f2: "find (\<lambda>t. tid t = iid) (sil @ [?iv]) = Some ?iv"
    using rest(5) by (subst find_skip) auto
  show ?thesis
  proof (cases "d = Suc (now s)")
    case False
    with d have "Suc (now s) < d" by simp
    then have "tick s = s\<lparr>now := Suc (now s)\<rparr>"
      using shape f0 by (auto simp: tick_def Let_def)
    moreover have "s\<lparr>now := Suc (now s)\<rparr> =
        s\<lparr>now := Suc (now s), recordingDuration := recordingDuration s, timers := timers s\<rparr>"
      by simp
    moreover have "session_inv t0 c iid sil (s\<lparr>now := Suc (now s)\<rparr>)"
      using rest d shape \<open>Suc (now s) < d\<close>
      by (intro session_invI [where d = d and j = j]) simp_all
    ultimately show ?thesis by metis
  next
    case True
    have lt: "d - t0 < MAX_RECORDING_DURATION"
      using cap True d(1) by (simp add: MAX_RECORDING_DURATION_def)
    have t: "tick s = s\<lparr>now := Suc (now s), recordingDuration := d - t0,
        timers := sil @ [?iv\<lparr>due := d + 100\<rparr>]\<rparr>"
      using shape
    proof
      assume "timers s = ?iv # sil"
      then show ?thesis
        using True f0 f1 lt
        by (simp add: tick_def Let_def run_timer_def duration_callback_def clearTimer_def)
    next
      assume "timers s = sil @ [?iv]"
      then show ?thesis
        using True f0 f1 f2 lt
        by (simp add: tick_def Let_def run_timer_def duration_callback_def clearTimer_def)
    qed
    have "session_inv t0 c iid sil (s\<lparr>now := Suc (now s), recordingDuration := d - t0,
        timers := sil @ [?iv\<lparr>due := d + 100\<rparr>]\<rparr>)"
      using rest d True
      by (intro session_invI [where d = "d + 100" and j = "Suc j"]) simp_all
    with t show ?thesis by metis
  qed
qed

lemma advance_quiet:
  assumes "session_inv t0 c iid sil s"
    and "\<forall>t \<in> set sil. now s + n < due t"
    and "now s + n < t0 + MAX_RECORDING_DURATION"
  shows "session_inv t0 c iid sil (advance n s) \<and>
         (\<exists>R ts. advance n s = s\<lparr>now := now s + n, recordingDuration := R, timers := ts\<rparr>)"
  using assms
proof (induction n arbitrary: s)
  case 0
  have "s = s\<lparr>now := now s + 0, recordingDuration := recordingDuration s, timers := timers s\<rparr>"
    by simp
  with 0 show ?case by (metis advance.simps(1))
next
  case (Suc n)
  have nodue: "\<forall>t \<in> set sil. Suc (now s) < due t"
    using Suc.prems(2) by auto
  have cap: "Suc (now s) < t0 + MAX_RECORDING_DURATION"
    using Suc.prems(3) by simp
  from tick_quiet [OF Suc.prems(1) nodue cap]
  obtain R ts where inv: "session_inv t0 c iid sil (tick s)"
    and eq: "tick s = s\<lparr>now := Suc (now s), recordingDuration := R, timers := ts\<rparr>"
    by blast
  have nw: "now (tick s) = Suc (now s)" by (subst eq) simp
  have "session_inv t0 c iid sil (advance n (tick s)) \<and>
      (\<exists>R' ts'. advance n (tick s) =
         (tick s)\<lparr>now := now (tick s) + n, recordingDuration := R', timers := ts'\<rparr>)"
    using Suc.prems(2,3) nw by (intro Suc.IH [OF inv]) simp_all
  then obtain R' ts' where inv': "session_inv t0 c iid sil (advance n (tick s))"
    and eq': "advance n (tick s) =
         (tick s)\<lparr>now := now (tick s) + n, recordingDuration := R', timers := ts'\<rparr>"
    by blast
  have "advance (Suc n) s = s\<lparr>now := now s + Suc n, recordingDuration := R', timers := ts'\<rparr>"
    by (simp add: eq' nw) (simp add: eq)
  with inv' show ?case by auto
qed

lemma advance_add: "advance (m + n) s = advance n (advance m s)"
  by (induction m arbitrary: s) simp_all

lemma now_advance_quiet:
  assumes "session_inv t0 c iid sil s"
    and "\<forall>t \<in> set sil. now s + n < due t"
    and "now s + n < t0 + MAX_RECORDING_DURATION"
  shows "now (advance n s) = now s + n"
proof -
  from advance_quiet [OF assms] obtain R ts where
    "advance n s = s\<lparr>now := now s + n, recordingDuration := R, timers := ts\<rparr>" by blast
  then show ?thesis by simp
qed

text \<open>A batch of results and the duration effect establish the invariant.\<close>

lemma onresult_inv:
  assumes "session_inv t0 c iid sil s"
  shows "session_inv t0 c iid
           [\<lparr>tid = nextId s, due = now s + 2000, task = SilenceTask (currentTranscript ev) h\<rparr>]
           (onresult h ev s)"
    and "now (onresult h ev s) = now s"
proof -
  from assms obtain d j where d: "d = t0 + 100 * j" "now s < d" "d \<le> now s + 100"
    and shape: "timers s = \<lparr>tid = iid, due = d, task = DurationTask t0 c\<rparr> # sil \<or>
         timers s = sil @ [\<lparr>tid = iid, due = d, task = DurationTask t0 c\<rparr>]"
    and rest: "isRecording s" "mediaRecorderRef s \<noteq> None" "iid < nextId s"
      "silenceTimeoutRef s \<noteq> Some iid"
      "\<forall>t \<in> set sil. tid t \<noteq> iid \<and> tid t \<noteq> 0 \<and> silenceTimeoutRef s = Some (tid t)"
    unfolding session_inv_def by blast
  let ?iv = "\<lparr>tid = iid, due = d, task = DurationTask t0 c\<rparr>"
  let ?s2 = "s\<lparr>transcript := currentTranscript ev,
      calls := calls s @ [OnInputChange (currentTranscript ev)]\<rparr>"
  have cleared: "timers (clearTimerRef (silenceTimeoutRef s) ?s2) = [?iv]"
  proof (cases "\<exists>sid. silenceTimeoutRef s = Some sid \<and> sid \<noteq> 0")
    case False
    then have "sil = []"
      using rest(5) by (cases sil) auto
    with False shape show ?thesis
      by (auto simp: clearTimerRef_def split: option.splits)
  next
    case True
    then obtain sid where sid: "silenceTimeoutRef s = Some sid" "sid \<noteq> 0"
      by blast
    have "filter (\<lambda>t. tid t \<noteq> sid) sil = []"
      using rest(5) sid by (intro filter_none) auto
    moreover have "iid \<noteq> sid" using rest(4) sid by auto
    ultimately show ?thesis
      using shape sid by (auto simp: clearTimerRef_def clearTimer_def)
  qed
  have other: "isRecording (clearTimerRef r ?s2) = isRecording s"
    "mediaRecorderRef (clearTimerRef r ?s2) = mediaRecorderRef s"
    "nextId (clearTimerRef r ?s2) = nextId s"
    "now (clearTimerRef r ?s2) = now s" for r
    by simp_all
  show "now (onresult h ev s) = now s"
    by (simp add: onresult_def Let_def setTimer_def other split_def)
  show "session_inv t0 c iid
           [\<lparr>tid = nextId s, due = now s + 2000, task = SilenceTask (currentTranscript ev) h\<rparr>]
           (onresult h ev s)"
    using rest d cleared
    by (intro session_invI [where d = d and j = j])
      (simp_all add: onresult_def Let_def setTimer_def other split_def SILENCE_THRESHOLD_def)
qed

lemma durationEffect_inv:
  assumes "isRecording s" "mediaRecorderRef s \<noteq> None" "timers s = []"
    "silenceTimeoutRef s \<noteq> Some (nextId s)" "c_isRecording c"
  shows "session_inv (now s) c (nextId s) [] (durationEffect c s)"
    and "now (durationEffect c s) = now s"
  using assms
  by (auto intro!: session_invI [where d = "now s + 100" and j = 1]
      simp: durationEffect_def setTimer_def Let_def)

lemma durationEffect_frame:
  "calls (durationEffect c s) = calls s" "nextId (durationEffect c s) = (if c_isRecording c then Suc (nextId s) else nextId s)"
  by (simp_all add: durationEffect_def Let_def setTimer_def split_def)

text \<open>Nothing but \<open>startRecording\<close> sets \<open>isRecording\<close>.\<close>

lemma isRecording_stopRecording: "isRecording (stopRecording c s) \<Longrightarrow> isRecording s"
  by (auto simp: stopRecording_def Let_def split: if_splits)

lemma isRecording_run_timer: "isRecording (run_timer t s) \<Longrightarrow> isRecording s"
  by (auto simp: run_timer_def silence_callback_def duration_callback_def Let_def clearTimer_def
      split: task.splits if_splits dest!: isRecording_stopRecording)

lemma isRecording_run_due: "isRecording (run_due ids s) \<Longrightarrow> isRecording s"
  by (induction ids arbitrary: s) (auto split: option.splits dest: isRecording_run_timer)

lemma isRecording_tick: "isRecording (tick s) \<Longrightarrow> isRecording s"
  by (auto simp: tick_def Let_def dest: isRecording_run_due)

lemma isRecording_advance: "isRecording (advance n s) \<Longrightarrow> isRecording s"
  by (induction n arbitrary: s) (auto dest: isRecording_tick)

lemma isRecording_onresult: "isRecording (onresult h ev s) = isRecording s"
  by (simp add: onresult_def Let_def setTimer_def split_def)

text \<open>The millisecond in which the cap is reached, and the one in which a silence timeout is due.\<close>

lemma stopRecording_effect:
  assumes "mediaRecorderRef s \<noteq> None" "c_isRecording h"
  shows "\<not> isRecording (stopRecording h s)"
    "transcript (stopRecording h s) = []"
    "calls (stopRecording h s) =
       calls s @ (if truthy (trim (c_transcript h))
                  then [OnRecordingComplete (c_transcript h)] else [])"
    "mediaRecorderRef (stopRecording h s) \<noteq> None"
    "now (stopRecording h s) = now s"
    "timers (stopRecording h s) = timers (clearTimerRef (silenceTimeoutRef s) s)"
  using assms
  by (auto simp: stopRecording_def Let_def mediaRecorder_stop_def recognition_stop_def
      clearTimerRef_def clearTimer_def split: option.splits)

lemma tick_cap:
  assumes inv: "session_inv t0 c iid sil s"
    and nodue: "\<forall>t \<in> set sil. Suc (now s) < due t"
    and cap: "Suc (now s) = t0 + MAX_RECORDING_DURATION"
    and c: "c_isRecording c"
  shows "\<not> isRecording (tick s) \<and> transcript (tick s) = [] \<and>
         calls (tick s) =
           calls s @ (if truthy (trim (c_transcript c))
                      then [OnRecordingComplete (c_transcript c)] else [])"
proof -
  from inv obtain d j where d: "d = t0 + 100 * j" "now s < d" "d \<le> now s + 100"
    and shape: "timers s = \<lparr>tid = iid, due = d, task = DurationTask t0 c\<rparr> # sil \<or>
         timers s = sil @ [\<lparr>tid = iid, due = d, task = DurationTask t0 c\<rparr>]"
    and rest: "isRecording s" "mediaRecorderRef s \<noteq> None" "iid < nextId s"
      "silenceTimeoutRef s \<noteq> Some iid"
      "\<forall>t \<in> set sil. tid t \<noteq> iid \<and> tid t \<noteq> 0 \<and> silenceTimeoutRef s = Some (tid t)"
    unfolding session_inv_def by blast
  let ?iv = "\<lparr>tid = iid, due = d, task = DurationTask t0 c\<rparr>"
  let ?s1 = "s\<lparr>now := Suc (now s)\<rparr>"
  have dd: "d = Suc (now s)"
    using d cap by (simp add: MAX_RECORDING_DURATION_def)
  have f0: "filter (\<lambda>t. due t \<le> Suc (now s)) sil = []"
    using nodue by (intro filter_none) auto
  have f2: "find (\<lambda>t. tid t = iid) (sil @ [?iv]) = Some ?iv"
    using rest(5) by (subst find_skip) auto
  have ge: "MAX_RECORDING_DURATION \<le> Suc (now s) - t0" using cap by simp
  have "tick s = run_timer ?iv ?s1"
    using shape dd f0 f2 by (auto simp: tick_def Let_def)
  moreover have "\<not> isRecording (run_timer ?iv ?s1) \<and> transcript (run_timer ?iv ?s1) = [] \<and>
      calls (run_timer ?iv ?s1) =
        calls s @ (if truthy (trim (c_transcript c))
                   then [OnRecordingComplete (c_transcript c)] else [])"
    using ge rest(2) c
    by (simp add: run_timer_def duration_callback_def Let_def clearTimer_def stopRecording_effect)
  ultimately show ?thesis by simp
qed

lemma tick_silence_blank:
  assumes inv: "session_inv t0 c iid [\<lparr>tid = sid, due = Suc (now s), task = SilenceTask cur h\<rparr>] s"
    and cap: "Suc (now s) < t0 + MAX_RECORDING_DURATION"
    and blank: "\<not> truthy (trim cur) \<or> \<not> c_isRecording h"
  shows "session_inv t0 c iid [] (tick s) \<and>
         (\<exists>R ts. tick s = s\<lparr>now := Suc (now s), recordingDuration := R, timers := ts\<rparr>)"
proof -
  let ?sl = "\<lparr>tid = sid, due = Suc (now s), task = SilenceTask cur h\<rparr>"
  from inv obtain d j where d: "d = t0 + 100 * j" "now s < d" "d \<le> now s + 100"
    and shape: "timers s = \<lparr>tid = iid, due = d, task = DurationTask t0 c\<rparr> # [?sl] \<or>
         timers s = [?sl] @ [\<lparr>tid = iid, due = d, task = DurationTask t0 c\<rparr>]"
    and rest: "isRecording s" "mediaRecorderRef s \<noteq> None" "iid < nextId s"
      "silenceTimeoutRef s \<noteq> Some iid"
      "sid \<noteq> iid" "sid \<noteq> 0" "silenceTimeoutRef s = Some sid"
    unfolding session_inv_def by auto
  let ?iv = "\<lparr>tid = iid, due = d, task = DurationTask t0 c\<rparr>"
  have lt: "d = Suc (now s) \<Longrightarrow> \<not> MAX_RECORDING_DURATION \<le> Suc (now s) - t0"
    using cap d(1) by (simp add: MAX_RECORDING_DURATION_def)
  have dcase: "d = Suc (now s) \<or> Suc (now s) < d" using d by auto
  have sc: "silence_callback cur h x = x" for x
    using blank by (auto simp: silence_callback_def stopRecording_def)
  note defs = tick_def Let_def run_timer_def duration_callback_def sc clearTimer_def
  have tk: "tick s = s\<lparr>now := Suc (now s),
      recordingDuration := (if d = Suc (now s) then d - t0 else recordingDuration s),
      timers := [?iv\<lparr>due := (if d = Suc (now s) then d + 100 else d)\<rparr>]\<rparr>"
    using shape dcase rest lt by (elim disjE) (simp_all add: defs)
  have "session_inv t0 c iid [] (s\<lparr>now := Suc (now s),
      recordingDuration := (if d = Suc (now s) then d - t0 else recordingDuration s),
      timers := [?iv\<lparr>due := (if d = Suc (now s) then d + 100 else d)\<rparr>]\<rparr>)"
    using rest d dcase
    by (intro session_invI [where d = "if d = Suc (now s) then d + 100 else d"
          and j = "if d = Suc (now s) then Suc j else j"]) auto
  with tk show ?thesis by metis
qed

lemma tick_silence_stops:
  assumes inv: "session_inv t0 c iid [\<lparr>tid = sid, due = Suc (now s), task = SilenceTask cur h\<rparr>] s"
    and cap: "Suc (now s) < t0 + MAX_RECORDING_DURATION"
    and nonblank: "truthy (trim cur)" and h: "c_isRecording h"
  shows "\<not> isRecording (tick s) \<and> transcript (tick s) = [] \<and>
         calls (tick s) =
           calls s @ (if truthy (trim (c_transcript h))
                      then [OnRecordingComplete (c_transcript h)] else [])"
proof -
  let ?sl = "\<lparr>tid = sid, due = Suc (now s), task = SilenceTask cur h\<rparr>"
  from inv obtain d j where d: "d = t0 + 100 * j" "now s < d" "d \<le> now s + 100"
    and shape: "timers s = \<lparr>tid = iid, due = d, task = DurationTask t0 c\<rparr> # [?sl] \<or>
         timers s = [?sl] @ [\<lparr>tid = iid, due = d, task = DurationTask t0 c\<rparr>]"
    and rest: "isRecording s" "mediaRecorderRef s \<noteq> None" "iid < nextId s"
      "silenceTimeoutRef s \<noteq> Some iid"
      "sid \<noteq> iid" "sid \<noteq> 0" "silenceTimeoutRef s = Some sid"
    unfolding session_inv_def by auto
  let ?iv = "\<lparr>tid = iid, due = d, task = DurationTask t0 c\<rparr>"
  have lt: "d = Suc (now s) \<Longrightarrow> \<not> MAX_RECORDING_DURATION \<le> Suc (now s) - t0"
    using cap d(1) by (simp add: MAX_RECORDING_DURATION_def)
  have dcase: "d = Suc (now s) \<or> Suc (now s) < d" using d by auto
  have sc: "silence_callback cur h x = stopRecording h x" for x
    using nonblank by (simp add: silence_callback_def)
  note defs = tick_def Let_def run_timer_def duration_callback_def sc clearTimer_def
    stopRecording_effect clearTimerRef_def
  show ?thesis
    using shape dcase rest lt h by (elim disjE) (simp_all add: defs)
qed

lemma silence_window:
  assumes inv: "session_inv t0 c iid
      [\<lparr>tid = sid, due = now s + 2000, task = SilenceTask cur h\<rparr>] s"
    and cap: "now s + 2000 < t0 + MAX_RECORDING_DURATION"
  shows "n < 2000 \<Longrightarrow> isRecording (advance n s)"
    and "truthy (trim cur) \<Longrightarrow> c_isRecording h \<Longrightarrow>
           \<not> isRecording (advance 2000 s) \<and> transcript (advance 2000 s) = [] \<and>
           calls (advance 2000 s) =
             calls s @ (if truthy (trim (c_transcript h))
                        then [OnRecordingComplete (c_transcript h)] else [])"
    and "\<not> truthy (trim cur) \<or> \<not> c_isRecording h \<Longrightarrow>
           session_inv t0 c iid [] (advance 2000 s) \<and> now (advance 2000 s) = now s + 2000 \<and>
           calls (advance 2000 s) = calls s \<and> transcript (advance 2000 s) = transcript s"
proof -
  let ?sil = "[\<lparr>tid = sid, due = now s + 2000, task = SilenceTask cur h\<rparr>]"
  show "isRecording (advance n s)" if "n < 2000"
  proof -
    have "session_inv t0 c iid ?sil (advance n s)"
      using advance_quiet [OF inv, of n] that cap by simp
    then show ?thesis by (simp add: session_inv_def)
  qed
  obtain R ts where inv': "session_inv t0 c iid ?sil (advance 1999 s)"
    and eq: "advance 1999 s = s\<lparr>now := now s + 1999, recordingDuration := R, timers := ts\<rparr>"
    using advance_quiet [OF inv, of 1999] cap by auto
  let ?s' = "advance 1999 s"
  have nw: "now ?s' = now s + 1999" by (subst eq) simp
  have cl: "calls ?s' = calls s" "transcript ?s' = transcript s" by (subst eq, simp)+
  have inv'': "session_inv t0 c iid
      [\<lparr>tid = sid, due = Suc (now ?s'), task = SilenceTask cur h\<rparr>] ?s'"
  proof -
    have "Suc (now ?s') = now s + 2000" using nw by simp
    with inv' show ?thesis by (simp only:)
  qed
  have cap': "Suc (now ?s') < t0 + MAX_RECORDING_DURATION" using cap nw by simp
  have step: "advance 2000 s = tick ?s'"
    using advance_add [of 1999 1 s] by simp
  show "\<not> isRecording (advance 2000 s) \<and> transcript (advance 2000 s) = [] \<and>
           calls (advance 2000 s) =
             calls s @ (if truthy (trim (c_transcript h))
                        then [OnRecordingComplete (c_transcript h)] else [])"
    if "truthy (trim cur)" "c_isRecording h"
    using tick_silence_stops [OF inv'' cap' that] cl by (simp add: step)
  show "session_inv t0 c iid [] (advance 2000 s) \<and> now (advance 2000 s) = now s + 2000 \<and>
           calls (advance 2000 s) = calls s \<and> transcript (advance 2000 s) = transcript s"
    if "\<not> truthy (trim cur) \<or> \<not> c_isRecording h"
  proof -
    from tick_silence_blank [OF inv'' cap' that] obtain R' ts'
      where i: "session_inv t0 c iid [] (tick ?s')"
        and e: "tick ?s' = ?s'\<lparr>now := Suc (now ?s'), recordingDuration := R', timers := ts'\<rparr>"
      by blast
    have "now (tick ?s') = now s + 2000" "calls (tick ?s') = calls s"
      "transcript (tick ?s') = transcript s"
      using nw cl by (subst e, simp)+
    with i show ?thesis by (simp add: step)
  qed
qed

text \<open>Batches less than 2000 ms apart.\<close>

lemma feed_snoc: "feed h (xs @ [(g, ev)]) s = onresult h ev (advance g (feed h xs s))"
  by (simp add: feed_def)

lemma elapsed_snoc: "elapsed (xs @ [(g, ev)]) = elapsed xs + g"
  by (simp add: elapsed_def)

lemma advance_to_cap:
  assumes inv: "session_inv t0 c iid sil s"
    and q: "\<forall>t \<in> set sil. now s + n < due t"
    and before: "now s < t0 + MAX_RECORDING_DURATION"
    and reach: "t0 + MAX_RECORDING_DURATION \<le> now s + n"
    and c: "c_isRecording c"
  shows "\<not> isRecording (advance n s)"
proof -
  define m where "m = t0 + MAX_RECORDING_DURATION - now s - 1"
  have m: "now s + m + 1 = t0 + MAX_RECORDING_DURATION" "m + 1 \<le> n"
    using before reach by (simp_all add: m_def)
  have q1: "\<forall>t \<in> set sil. now s + m < due t" using q m(2) by auto
  have cap1: "now s + m < t0 + MAX_RECORDING_DURATION" using m(1) by simp
  have inv': "session_inv t0 c iid sil (advance m s)"
    using advance_quiet [OF inv q1 cap1] by blast
  have nw: "now (advance m s) = now s + m"
    by (rule now_advance_quiet [OF inv q1 cap1])
  have q2: "\<forall>t \<in> set sil. Suc (now (advance m s)) < due t"
    using q m(2) nw by auto
  have cap2: "Suc (now (advance m s)) = t0 + MAX_RECORDING_DURATION"
    using nw m(1) by simp
  have "\<not> isRecording (tick (advance m s))"
    using tick_cap [OF inv' q2 cap2 c] by blast
  then have "\<not> isRecording (advance (n - (m + 1)) (tick (advance m s)))"
    using isRecording_advance by blast
  moreover have "advance n s = advance (n - (m + 1)) (tick (advance m s))"
    using advance_add [of "m + 1" "n - (m + 1)" s] advance_add [of m 1 s] m(2) by simp
  ultimately show ?thesis by simp
qed

lemma feed_inv:
  assumes "session_inv t0 c iid [] s" "now s = t0"
    and "\<forall>(g, ev) \<in> set xs. g < 2000"
    and "elapsed xs < MAX_RECORDING_DURATION"
  shows "\<exists>sil. session_inv t0 c iid sil (feed h xs s) \<and>
           now (feed h xs s) = t0 + elapsed xs \<and>
           (\<forall>t \<in> set sil. due t = now (feed h xs s) + 2000)"
  using assms(3,4)
proof (induction xs rule: rev_induct)
  case Nil
  with assms(1,2) show ?case by (auto simp: feed_def elapsed_def)
next
  case (snoc x xs)
  obtain g ev where x: "x = (g, ev)" by (cases x)
  from snoc.prems x have g: "g < 2000" and gs: "\<forall>(g, ev) \<in> set xs. g < 2000"
    and el: "elapsed xs + g < MAX_RECORDING_DURATION"
    by (auto simp: elapsed_snoc)
  from snoc.IH [OF gs] el obtain sil where inv: "session_inv t0 c iid sil (feed h xs s)"
    and nw: "now (feed h xs s) = t0 + elapsed xs"
    and du: "\<forall>t \<in> set sil. due t = now (feed h xs s) + 2000"
    by auto
  let ?s = "feed h xs s"
  have q: "\<forall>t \<in> set sil. now ?s + g < due t" using du g by simp
  have cap: "now ?s + g < t0 + MAX_RECORDING_DURATION" using nw el by simp
  have inv': "session_inv t0 c iid sil (advance g ?s)"
    using advance_quiet [OF inv q cap] by blast
  have nw': "now (advance g ?s) = t0 + elapsed (xs @ [x])"
    using now_advance_quiet [OF inv q cap] nw x by (simp add: elapsed_snoc)
  show ?case
    using onresult_inv [OF inv', where ev = ev and h = h] nw' x
    by (auto simp: feed_snoc)
qed

lemma feed_capped:
  assumes "session_inv t0 c iid [] s" "now s = t0" "c_isRecording c"
    and "\<forall>(g, ev) \<in> set xs. g < 2000"
  shows "isRecording (feed h xs s) = (elapsed xs < MAX_RECORDING_DURATION)"
  using assms(4)
proof (induction xs rule: rev_induct)
  case Nil
  with assms(1) show ?case
    by (simp add: feed_def elapsed_def session_inv_def MAX_RECORDING_DURATION_def)
next
  case (snoc x xs)
  obtain g ev where x: "x = (g, ev)" by (cases x)
  from snoc.prems x have g: "g < 2000" and gs: "\<forall>(g, ev) \<in> set xs. g < 2000"
    by auto
  let ?s = "feed h xs s"
  show ?case
  proof (cases "elapsed (xs @ [x]) < MAX_RECORDING_DURATION")
    case True
    from feed_inv [OF assms(1,2) snoc.prems True, of h] show ?thesis
      using True by (auto simp: session_inv_def)
  next
    case False
    have "\<not> isRecording (advance g ?s)"
    proof (cases "elapsed xs < MAX_RECORDING_DURATION")
      case False
      with snoc.IH [OF gs] have "\<not> isRecording ?s" by simp
      then show ?thesis using isRecording_advance by blast
    next
      case True
      from feed_inv [OF assms(1,2) gs True, of h] obtain sil
        where inv: "session_inv t0 c iid sil ?s"
          and nw: "now ?s = t0 + elapsed xs"
          and du: "\<forall>t \<in> set sil. due t = now ?s + 2000"
        by blast
      have q: "\<forall>t \<in> set sil. now ?s + g < due t" using du g by simp
      show ?thesis
        using advance_to_cap [OF inv q _ _ assms(3)] nw True False x
        by (simp add: elapsed_snoc)
    qed
    with False x show ?thesis
      by (simp add: feed_snoc isRecording_onresult)
  qed
qed

text \<open>The concrete inputs.\<close>

lemma currentTranscript_batch_hi: "currentTranscript batch_hi = [0x68, 0x69]"
  by (simp add: currentTranscript_eq final_text_def batch_fragments_def batch_hi_def)

lemma currentTranscript_batch_blank: "currentTranscript batch_blank = [0x20]"
  by (simp add: currentTranscript_eq final_text_def interim_text_def batch_fragments_def
      batch_blank_def)

lemma truthy_trim_hi: "truthy (trim [0x68, 0x69])"
  by (simp add: truthy_def trim_def isWhiteSpace_def)

lemma blank_trim: "\<not> truthy (trim [0x20])" "\<not> truthy (trim [])"
  by (simp_all add: truthy_def trim_def isWhiteSpace_def)

lemma started_fresh:
  "isRecording started" "mediaRecorderRef started \<noteq> None" "timers started = []"
  "silenceTimeoutRef started \<noteq> Some (nextId started)"
  by (simp_all add: started_facts)

subsection \<open>The session after the render that follows \<open>startRecording\<close>\<close>

lemma cancelFrameRef_frame:
  "isRecording (cancelFrameRef r s) = isRecording s"
  "mediaRecorderRef (cancelFrameRef r s) = mediaRecorderRef s"
  "silenceTimeoutRef (cancelFrameRef r s) = silenceTimeoutRef s"
  "transcript (cancelFrameRef r s) = transcript s"
  "nextId (cancelFrameRef r s) = nextId s"
  "calls (cancelFrameRef r s) = calls s"
  "now (cancelFrameRef r s) = now s"
  "recognitionRef (cancelFrameRef r s) = recognitionRef s"
  "timers (cancelFrameRef r s) = timers s"
  by (simp_all add: cancelFrameRef_def cancelAnimationFrame_def split: option.splits)

lemma recognition_stop_frame:
  "isRecording (recognition_stop s) = isRecording s"
  "mediaRecorderRef (recognition_stop s) = mediaRecorderRef s"
  "silenceTimeoutRef (recognition_stop s) = silenceTimeoutRef s"
  "transcript (recognition_stop s) = transcript s"
  "nextId (recognition_stop s) = nextId s"
  "calls (recognition_stop s) = calls s"
  "now (recognition_stop s) = now s"
  "timers (recognition_stop s) = timers s"
  by (simp_all add: recognition_stop_def split: option.splits)

lemma clearTimerRef_timers: "timers s = [] \<Longrightarrow> timers (clearTimerRef r s) = []"
  by (simp add: clearTimerRef_def clearTimer_def split: option.splits)

lemma cleanup_frame:
  "isRecording (cleanup s) = isRecording s"
  "mediaRecorderRef (cleanup s) = mediaRecorderRef s"
  "silenceTimeoutRef (cleanup s) = silenceTimeoutRef s"
  "transcript (cleanup s) = transcript s"
  "nextId (cleanup s) = nextId s"
  "calls (cleanup s) = calls s"
  "now (cleanup s) = now s"
  "timers s = [] \<Longrightarrow> timers (cleanup s) = []"
  by (simp_all add: cleanup_def Let_def cancelFrameRef_frame recognition_stop_frame
      clearTimerRef_timers audioContext_close_def)

lemma after_start_facts:
  "isRecording after_start"
  "mediaRecorderRef after_start = Some \<lparr>stream = 1, rstate = Capturing\<rparr>"
  "timers after_start = []"
  "silenceTimeoutRef after_start = None"
  "transcript after_start = []"
  "nextId after_start = 3"
  "calls after_start = []"
  "recognitionRef after_start = Some Idle"
  "now after_start = 0"
  by (simp_all add: after_start_def speechEffect_def speechEffect_cleanup_def
      durationEffect_cleanup_def cleanup_frame started_facts clearTimerRef_timers)

lemma after_start_fresh:
  "isRecording after_start" "mediaRecorderRef after_start \<noteq> None" "timers after_start = []"
  "silenceTimeoutRef after_start \<noteq> Some (nextId after_start)"
  by (simp_all add: after_start_facts)

lemma idle_handler:
  "stopRecording idle_closure s = s"
  "onerror idle_closure err s = s\<lparr>calls := calls s @ [LogRecognitionError err]\<rparr>"
  "onend idle_closure s = Returned s"
  by (simp_all add: idle_closure_def stopRecording_def onerror_def onend_def Let_def)

lemma session_inv_calls:
  "session_inv t0 c iid sil (s\<lparr>calls := cs\<rparr>) = session_inv t0 c iid sil s"
  by (simp add: session_inv_def)

lemma recording_session_inv:
  "session_inv 0 recording_closure 3 [] recording_session" "now recording_session = 0"
  "calls recording_session = []" "recognitionRef recording_session = Some Idle"
  "transcript recording_session = []"
proof -
  have c: "c_isRecording recording_closure" by (simp add: recording_closure_def)
  show "session_inv 0 recording_closure 3 [] recording_session" "now recording_session = 0"
    using durationEffect_inv [OF after_start_fresh c]
    by (simp_all add: after_start_facts recording_session_def)
  show "calls recording_session = []" "recognitionRef recording_session = Some Idle"
    "transcript recording_session = []"
    by (simp_all add: recording_session_def durationEffect_def setTimer_def Let_def
        recording_closure_def after_start_facts)
qed

subsection \<open>Batches at any distance\<close>

text \<open>
  One millisecond, and any number of them, in a session that is still recording
  afterwards and has not reached the cap: a silence timeout that ran did nothing.
\<close>

lemma pending_silence_Nil: "pending_silence [] s"
  by (simp add: pending_silence_def)

lemma pending_silence_single:
  "now s < ds \<Longrightarrow> pending_silence [\<lparr>tid = sid, due = ds, task = SilenceTask cur h\<rparr>] s"
  by (simp add: pending_silence_def)

lemma pending_silenceE:
  assumes "pending_silence sil s"
  obtains "sil = []"
  | sid ds cur h where "sil = [\<lparr>tid = sid, due = ds, task = SilenceTask cur h\<rparr>]" "now s < ds"
proof (cases sil)
  case Nil
  then show ?thesis using that(1) by simp
next
  case (Cons t ts)
  with assms have ts: "ts = []" and lt: "now s < due t"
    and tk: "case task t of SilenceTask _ _ \<Rightarrow> True | DurationTask _ _ \<Rightarrow> False"
    by (auto simp: pending_silence_def split: list.splits)
  from tk obtain cur h where "task t = SilenceTask cur h"
    by (cases "task t") auto
  then have "t = \<lparr>tid = tid t, due = due t, task = SilenceTask cur h\<rparr>" by simp
  then have "sil = [\<lparr>tid = tid t, due = due t, task = SilenceTask cur h\<rparr>]"
    using Cons ts by simp
  then show ?thesis using that(2) lt by blast
qed

lemma tick_step:
  assumes inv: "session_inv t0 c iid sil s"
    and pend: "pending_silence sil s"
    and cap: "Suc (now s) < t0 + MAX_RECORDING_DURATION"
    and rec: "isRecording (tick s)"
  shows "\<exists>sil'. session_inv t0 c iid sil' (tick s) \<and> pending_silence sil' (tick s) \<and>
           now (tick s) = Suc (now s)"
  using pend
proof (cases rule: pending_silenceE)
  case 1
  have nodue: "\<forall>t \<in> set sil. Suc (now s) < due t" using 1 by simp
  from tick_quiet [OF inv nodue cap] obtain R ts
    where i: "session_inv t0 c iid sil (tick s)"
      and e: "tick s = s\<lparr>now := Suc (now s), recordingDuration := R, timers := ts\<rparr>"
    by blast
  have "now (tick s) = Suc (now s)" by (subst e) simp
  with i 1 show ?thesis using pending_silence_Nil by blast
next
  case (2 sid ds cur h)
  show ?thesis
  proof (cases "Suc (now s) < ds")
    case True
    have nodue: "\<forall>t \<in> set sil. Suc (now s) < due t" using 2 True by simp
    from tick_quiet [OF inv nodue cap] obtain R ts
      where i: "session_inv t0 c iid sil (tick s)"
        and e: "tick s = s\<lparr>now := Suc (now s), recordingDuration := R, timers := ts\<rparr>"
      by blast
    have n: "now (tick s) = Suc (now s)" by (subst e) simp
    then have "pending_silence sil (tick s)"
      using 2(1) True by (simp add: pending_silence_def)
    with i n show ?thesis by blast
  next
    case False
    then have ds: "ds = Suc (now s)" using 2(2) by simp
    have inv': "session_inv t0 c iid
        [\<lparr>tid = sid, due = Suc (now s), task = SilenceTask cur h\<rparr>] s"
      using inv 2(1) ds by simp
    show ?thesis
    proof (cases "truthy (trim cur) \<and> c_isRecording h")
      case True
      then have "\<not> isRecording (tick s)"
        using tick_silence_stops [OF inv' cap] by blast
      with rec show ?thesis by simp
    next
      case False
      then have b: "\<not> truthy (trim cur) \<or> \<not> c_isRecording h" by blast
      from tick_silence_blank [OF inv' cap b] obtain R ts
        where i: "session_inv t0 c iid [] (tick s)"
          and e: "tick s = s\<lparr>now := Suc (now s), recordingDuration := R, timers := ts\<rparr>"
        by blast
      have "now (tick s) = Suc (now s)" by (subst e) simp
      with i show ?thesis using pending_silence_Nil by blast
    qed
  qed
qed

lemma advance_step:
  assumes "session_inv t0 c iid sil s" "pending_silence sil s"
    and "now s + n < t0 + MAX_RECORDING_DURATION"
    and "isRecording (advance n s)"
  shows "\<exists>sil'. session_inv t0 c iid sil' (advance n s) \<and> pending_silence sil' (advance n s) \<and>
           now (advance n s) = now s + n"
  using assms
proof (induction n arbitrary: s sil)
  case 0
  then show ?case by auto
next
  case (Suc n)
  have rec: "isRecording (tick s)"
    using Suc.prems(4) isRecording_advance [of n "tick s"] by simp
  have cap: "Suc (now s) < t0 + MAX_RECORDING_DURATION"
    using Suc.prems(3) by simp
  from tick_step [OF Suc.prems(1,2) cap rec] obtain sil'
    where i: "session_inv t0 c iid sil' (tick s)" and p: "pending_silence sil' (tick s)"
      and n: "now (tick s) = Suc (now s)"
    by blast
  have cap': "now (tick s) + n < t0 + MAX_RECORDING_DURATION"
    using Suc.prems(3) n by simp
  have rec': "isRecording (advance n (tick s))" using Suc.prems(4) by simp
  from Suc.IH [OF i p cap' rec'] n show ?case by simp
qed

lemma feed_recording:
  assumes "session_inv t0 c iid [] s" "now s = t0"
    and "isRecording (feed h xs s)"
    and "elapsed xs < MAX_RECORDING_DURATION"
  shows "\<exists>sil. session_inv t0 c iid sil (feed h xs s) \<and> pending_silence sil (feed h xs s) \<and>
           now (feed h xs s) = t0 + elapsed xs"
  using assms(3,4)
proof (induction xs rule: rev_induct)
  case Nil
  with assms(1,2) show ?case
    using pending_silence_Nil by (auto simp: feed_def elapsed_def)
next
  case (snoc x xs)
  obtain g ev where x: "x = (g, ev)" by (cases x)
  let ?s = "feed h xs s"
  have r': "isRecording (advance g ?s)"
    using snoc.prems(1) x by (simp add: feed_snoc isRecording_onresult)
  then have r: "isRecording ?s" by (rule isRecording_advance)
  have el: "elapsed xs + g < MAX_RECORDING_DURATION"
    using snoc.prems(2) x by (simp add: elapsed_snoc)
  then have el0: "elapsed xs < MAX_RECORDING_DURATION" by simp
  from snoc.IH [OF r el0] obtain sil where inv: "session_inv t0 c iid sil ?s"
    and pend: "pending_silence sil ?s" and nw: "now ?s = t0 + elapsed xs"
    by blast
  have cap: "now ?s + g < t0 + MAX_RECORDING_DURATION" using nw el by simp
  from advance_step [OF inv pend cap r'] obtain sil'
    where i': "session_inv t0 c iid sil' (advance g ?s)"
      and n': "now (advance g ?s) = now ?s + g"
    by blast
  have i2: "session_inv t0 c iid
      [\<lparr>tid = nextId (advance g ?s), due = now (advance g ?s) + 2000,
        task = SilenceTask (currentTranscript ev) h\<rparr>] (onresult h ev (advance g ?s))"
    and n2: "now (onresult h ev (advance g ?s)) = now (advance g ?s)"
    using onresult_inv [OF i', where ev = ev and h = h] by simp_all
  have p2: "pending_silence
      [\<lparr>tid = nextId (advance g ?s), due = now (advance g ?s) + 2000,
        task = SilenceTask (currentTranscript ev) h\<rparr>] (onresult h ev (advance g ?s))"
    by (rule pending_silence_single) (simp add: n2)
  have "now (onresult h ev (advance g ?s)) = t0 + elapsed (xs @ [x])"
    using n2 n' nw x by (simp add: elapsed_snoc)
  with i2 p2 show ?case
    using x by (auto simp: feed_snoc)
qed

subsection \<open>The silence timer\<close>

text \<open>
  C3, as amended. Every batch of results cancels the silence timeout that
  \<open>silenceTimeoutRef\<close> holds and sets a new one, due 2000 ms after that batch. Take a
  session that starts recording at some time \<open>t\<close> (the duration effect runs on a
  session with a recorder and no pending timer), receives batches at any distances,
  through handlers with any closure, and is recording when the last of them arrives.
  Then the session is recording at every instant less than 2000 ms after that batch
  and before the duration cap; and when the text of the batch is empty after
  trimming, its timeout does nothing and the session is recording at every instant
  before the cap. With batches at \<open>t\<close> and \<open>t + 1000\<close> the session is recording at
  \<open>t + 2500\<close>. What the timeout does for a text that is not blank is not part of
  this statement: it calls \<open>stopRecording\<close>, whose guard reads the \<open>isRecording\<close> of
  the render that installed the handler.
\<close>

theorem silence_timer_rearmed:
  assumes "isRecording s" "mediaRecorderRef s \<noteq> None" "timers s = []"
    "silenceTimeoutRef s \<noteq> Some (nextId s)" "c_isRecording c"
    and "isRecording (feed h (xs @ [(gap, ev)]) (durationEffect c s))"
  shows "timers (onresult h ev x) =
           timers (clearTimerRef (silenceTimeoutRef x) x) @
           [\<lparr>tid = nextId x, due = now x + 2000, task = SilenceTask (currentTranscript ev) h\<rparr>] \<and>
         (\<forall>n. (n < 2000 \<or> \<not> truthy (trim (currentTranscript ev))) \<and>
               elapsed xs + gap + n < 60000 \<longrightarrow>
               isRecording (advance n (feed h (xs @ [(gap, ev)]) (durationEffect c s))))"
proof -
  let ?s0 = "durationEffect c s"
  let ?t0 = "now s" and ?iid = "nextId s"
  have i0: "session_inv ?t0 c ?iid [] ?s0" and n0: "now ?s0 = ?t0"
    using durationEffect_inv [OF assms(1-5)] by simp_all
  let ?s1 = "feed h xs ?s0"
  let ?s1' = "advance gap ?s1"
  let ?s2 = "feed h (xs @ [(gap, ev)]) ?s0"
  have s2: "?s2 = onresult h ev ?s1'" by (simp add: feed_snoc)
  have r1': "isRecording ?s1'"
    using assms(6) by (simp add: s2 isRecording_onresult)
  then have r1: "isRecording ?s1" by (rule isRecording_advance)
  have main: "isRecording (advance n ?s2)"
    if n: "n < 2000 \<or> \<not> truthy (trim (currentTranscript ev))"
      and b: "elapsed xs + gap + n < 60000" for n
  proof -
    have el: "elapsed xs < MAX_RECORDING_DURATION"
      using b by (simp add: MAX_RECORDING_DURATION_def)
    from feed_recording [OF i0 n0 r1 el] obtain sil
      where inv: "session_inv ?t0 c ?iid sil ?s1" and pend: "pending_silence sil ?s1"
        and nw: "now ?s1 = ?t0 + elapsed xs"
      by blast
    have cap: "now ?s1 + gap < ?t0 + MAX_RECORDING_DURATION"
      using nw b by (simp add: MAX_RECORDING_DURATION_def)
    from advance_step [OF inv pend cap r1'] obtain sil'
      where i1': "session_inv ?t0 c ?iid sil' ?s1'" and n1': "now ?s1' = now ?s1 + gap"
      by blast
    have i2: "session_inv ?t0 c ?iid
        [\<lparr>tid = nextId ?s1', due = now ?s1' + 2000,
          task = SilenceTask (currentTranscript ev) h\<rparr>] ?s2"
      and n2: "now ?s2 = now ?s1'"
      using onresult_inv [OF i1', where ev = ev and h = h] by (simp_all add: s2)
    have i2': "session_inv ?t0 c ?iid
        [\<lparr>tid = nextId ?s1', due = now ?s2 + 2000,
          task = SilenceTask (currentTranscript ev) h\<rparr>] ?s2"
      using i2 by (simp only: n2)
    have nw2: "now ?s2 = ?t0 + elapsed xs + gap" using n2 n1' nw by simp
    show ?thesis
    proof (cases "n < 2000")
      case True
      have "session_inv ?t0 c ?iid
          [\<lparr>tid = nextId ?s1', due = now ?s2 + 2000,
            task = SilenceTask (currentTranscript ev) h\<rparr>] (advance n ?s2)"
        using advance_quiet [OF i2', of n] True b nw2
        by (simp add: MAX_RECORDING_DURATION_def)
      then show ?thesis by (simp add: session_inv_def)
    next
      case False
      with n have blank: "\<not> truthy (trim (currentTranscript ev))" by simp
      have cap2: "now ?s2 + 2000 < ?t0 + MAX_RECORDING_DURATION"
        using False b nw2 by (simp add: MAX_RECORDING_DURATION_def)
      from silence_window(3) [OF i2' cap2] blank
      have i3: "session_inv ?t0 c ?iid [] (advance 2000 ?s2)"
        and n3: "now (advance 2000 ?s2) = now ?s2 + 2000"
        by simp_all
      have "session_inv ?t0 c ?iid [] (advance (n - 2000) (advance 2000 ?s2))"
        using advance_quiet [OF i3, of "n - 2000"] n3 nw2 b False
        by (simp add: MAX_RECORDING_DURATION_def)
      moreover have "advance n ?s2 = advance (n - 2000) (advance 2000 ?s2)"
        using advance_add [of 2000 "n - 2000" ?s2] False by simp
      ultimately show ?thesis by (simp add: session_inv_def)
    qed
  qed
  show ?thesis using main onresult_frame(3) by blast
qed

theorem silence_timer_rearmed_witness:
  "isRecording (feed idle_closure [(0, batch_hi), (1000, batch_hi)] recording_session) \<and>
   isRecording (advance 1500
      (feed idle_closure [(0, batch_hi), (1000, batch_hi)] recording_session)) \<and>
   isRecording (advance 58999
      (feed idle_closure [(0, batch_hi), (1000, batch_blank)] recording_session)) \<and>
   isRecording (advance 58999
      (feed recording_closure [(0, batch_hi), (1000, batch_blank)] recording_session))"
proof -
  let ?s0 = "durationEffect recording_closure after_start"
  have c: "c_isRecording recording_closure" by (simp add: recording_closure_def)
  have i0: "session_inv 0 recording_closure 3 [] ?s0" and n0: "now ?s0 = 0"
    using durationEffect_inv [OF after_start_fresh c] by (simp_all add: after_start_facts)
  have r: "isRecording (feed h [(0, e1), (1000, e2)] ?s0)" for h e1 e2
    using feed_capped [OF i0 n0 c, of "[(0, e1), (1000, e2)]" h]
    by (simp add: elapsed_def MAX_RECORDING_DURATION_def)
  note u = silence_timer_rearmed [OF after_start_fresh c]
  have a: "isRecording (advance 1500 (feed idle_closure [(0, batch_hi), (1000, batch_hi)] ?s0))"
    using u [of idle_closure "[(0, batch_hi)]" 1000 batch_hi]
      r [of idle_closure batch_hi batch_hi]
    by (simp add: elapsed_def)
  have b: "isRecording (advance 58999 (feed h [(0, batch_hi), (1000, batch_blank)] ?s0))" for h
    using u [of h "[(0, batch_hi)]" 1000 batch_blank] r [of h batch_hi batch_blank]
    by (simp add: elapsed_def currentTranscript_batch_blank blank_trim)
  show ?thesis using a b r by (simp add: recording_session_def)
qed

text \<open>
  The claim as stated fails for a batch whose text is a single space: its timeout
  runs 2000 ms later, with no further batch, and the session is still recording then
  and up to the last millisecond before the cap.
\<close>

theorem blank_update_never_stops:
  "isRecording (advance 2000 (onresult recording_closure batch_blank
      (durationEffect recording_closure started))) \<and>
   isRecording (advance 59999 (onresult recording_closure batch_blank
      (durationEffect recording_closure started)))"
proof -
  let ?c = recording_closure
  let ?s0 = "durationEffect ?c started"
  let ?s1 = "onresult ?c batch_blank ?s0"
  have c: "c_isRecording ?c" by (simp add: recording_closure_def)
  have i0: "session_inv 0 ?c 3 [] ?s0" and n0: "now ?s0 = 0"
    using durationEffect_inv [OF started_fresh c] by (simp_all add: started_facts)
  have i1: "session_inv 0 ?c 3
      [\<lparr>tid = nextId ?s0, due = now ?s1 + 2000, task = SilenceTask [0x20] ?c\<rparr>] ?s1"
    and n1: "now ?s1 = 0"
    using onresult_inv [OF i0, where ev = batch_blank and h = ?c] n0
    by (simp_all add: currentTranscript_batch_blank)
  have cap: "now ?s1 + 2000 < 0 + MAX_RECORDING_DURATION"
    using n1 by (simp add: MAX_RECORDING_DURATION_def)
  from silence_window(3) [OF i1 cap] blank_trim(1)
  have i2: "session_inv 0 ?c 3 [] (advance 2000 ?s1)" and n2: "now (advance 2000 ?s1) = 2000"
    using n1 by simp_all
  have "session_inv 0 ?c 3 [] (advance 57999 (advance 2000 ?s1))"
    using advance_quiet [OF i2, of 57999] n2 by (simp add: MAX_RECORDING_DURATION_def)
  moreover have "advance 59999 ?s1 = advance 57999 (advance 2000 ?s1)"
    using advance_add [of 2000 57999 ?s1] by simp
  ultimately show ?thesis using i2 by (simp add: session_inv_def)
qed

subsection \<open>What a stop by a timer delivers\<close>

text \<open>
  C4. Evaluation at the failing input. The session has started, no batch has
  arrived, and the closures of that render hold an empty \<open>transcript\<close>. One batch with
  the final fragment \<open>hi\<close> arrives, and then nothing.

  If the handler's \<open>isRecording\<close> is true, the silence timeout stops the session
  2000 ms later: the transcript \<open>hi\<close> is cleared and \<open>onRecordingComplete\<close> is never
  called, because \<open>stopRecording\<close> reads the \<open>transcript\<close> of the render that created
  it. If the handler's \<open>isRecording\<close> is false, the timeout does nothing, the session
  still holds \<open>hi\<close> at 59999 ms, and the duration cap stops it at 60000 ms, again
  clearing \<open>hi\<close> with no call of \<open>onRecordingComplete\<close>. A \<open>stopRecording\<close> created
  by the render that has seen \<open>hi\<close>, as the one behind the stop button is, delivers
  it.
\<close>

theorem auto_stop_delivers_nothing:
  "transcript (onresult recording_closure batch_hi (durationEffect recording_closure started))
     = [0x68, 0x69] \<and>
   \<not> isRecording (advance 2000 (onresult recording_closure batch_hi
        (durationEffect recording_closure started))) \<and>
   transcript (advance 2000 (onresult recording_closure batch_hi
        (durationEffect recording_closure started))) = [] \<and>
   calls (advance 2000 (onresult recording_closure batch_hi
        (durationEffect recording_closure started))) = [OnInputChange [0x68, 0x69]] \<and>
   isRecording (advance 59999 (onresult idle_closure batch_hi
        (durationEffect recording_closure started))) \<and>
   transcript (advance 59999 (onresult idle_closure batch_hi
        (durationEffect recording_closure started))) = [0x68, 0x69] \<and>
   \<not> isRecording (advance 60000 (onresult idle_closure batch_hi
        (durationEffect recording_closure started))) \<and>
   transcript (advance 60000 (onresult idle_closure batch_hi
        (durationEffect recording_closure started))) = [] \<and>
   calls (advance 60000 (onresult idle_closure batch_hi
        (durationEffect recording_closure started))) = [OnInputChange [0x68, 0x69]] \<and>
   calls (stopRecording \<lparr>c_isRecording = True, c_transcript = [0x68, 0x69]\<rparr>
        (onresult recording_closure batch_hi (durationEffect recording_closure started))) =
     [OnInputChange [0x68, 0x69], OnRecordingComplete [0x68, 0x69]]"
proof -
  let ?c = recording_closure
  let ?s0 = "durationEffect ?c started"
  have c: "c_isRecording ?c" and ct: "c_transcript ?c = []"
    by (simp_all add: recording_closure_def)
  have i0: "session_inv 0 ?c 3 [] ?s0" and n0: "now ?s0 = 0"
    using durationEffect_inv [OF started_fresh c] by (simp_all add: started_facts)
  have cl0: "calls ?s0 = []"
    by (simp add: durationEffect_frame started_facts)
  have first: "\<not> isRecording (advance 2000 (onresult ?c batch_hi ?s0)) \<and>
      transcript (advance 2000 (onresult ?c batch_hi ?s0)) = [] \<and>
      calls (advance 2000 (onresult ?c batch_hi ?s0)) = [OnInputChange [0x68, 0x69]]"
  proof -
    let ?s1 = "onresult ?c batch_hi ?s0"
    have i1: "session_inv 0 ?c 3
        [\<lparr>tid = nextId ?s0, due = now ?s1 + 2000, task = SilenceTask [0x68, 0x69] ?c\<rparr>] ?s1"
      and n1: "now ?s1 = 0"
      using onresult_inv [OF i0, where ev = batch_hi and h = ?c] n0
      by (simp_all add: currentTranscript_batch_hi)
    have cap: "now ?s1 + 2000 < 0 + MAX_RECORDING_DURATION"
      using n1 by (simp add: MAX_RECORDING_DURATION_def)
    from silence_window(2) [OF i1 cap truthy_trim_hi c]
    show ?thesis
      by (simp add: ct blank_trim onresult_frame cl0 currentTranscript_batch_hi)
  qed
  have second: "isRecording (advance 59999 (onresult idle_closure batch_hi ?s0)) \<and>
      transcript (advance 59999 (onresult idle_closure batch_hi ?s0)) = [0x68, 0x69] \<and>
      \<not> isRecording (advance 60000 (onresult idle_closure batch_hi ?s0)) \<and>
      transcript (advance 60000 (onresult idle_closure batch_hi ?s0)) = [] \<and>
      calls (advance 60000 (onresult idle_closure batch_hi ?s0)) = [OnInputChange [0x68, 0x69]]"
  proof -
    let ?h = idle_closure
    let ?s1 = "onresult ?h batch_hi ?s0"
    have h: "\<not> c_isRecording ?h" by (simp add: idle_closure_def)
    have i1: "session_inv 0 ?c 3
        [\<lparr>tid = nextId ?s0, due = now ?s1 + 2000, task = SilenceTask [0x68, 0x69] ?h\<rparr>] ?s1"
      and n1: "now ?s1 = 0"
      using onresult_inv [OF i0, where ev = batch_hi and h = ?h] n0
      by (simp_all add: currentTranscript_batch_hi)
    have cap: "now ?s1 + 2000 < 0 + MAX_RECORDING_DURATION"
      using n1 by (simp add: MAX_RECORDING_DURATION_def)
    let ?s2 = "advance 2000 ?s1"
    from silence_window(3) [OF i1 cap] h
    have i2: "session_inv 0 ?c 3 [] ?s2" and n2: "now ?s2 = 2000"
      and cl2: "calls ?s2 = [OnInputChange [0x68, 0x69]]"
      and tr2: "transcript ?s2 = [0x68, 0x69]"
      using n1 by (simp_all add: onresult_frame cl0 currentTranscript_batch_hi)
    let ?s3 = "advance 57999 ?s2"
    obtain R ts where i3: "session_inv 0 ?c 3 [] ?s3"
      and e3: "?s3 = ?s2\<lparr>now := now ?s2 + 57999, recordingDuration := R, timers := ts\<rparr>"
      using advance_quiet [OF i2, of 57999] n2 by (auto simp: MAX_RECORDING_DURATION_def)
    have n3: "now ?s3 = 59999" and cl3: "calls ?s3 = [OnInputChange [0x68, 0x69]]"
      and tr3: "transcript ?s3 = [0x68, 0x69]"
      using n2 cl2 tr2 by (subst e3, simp)+
    have cap3: "Suc (now ?s3) = 0 + MAX_RECORDING_DURATION"
      using n3 by (simp add: MAX_RECORDING_DURATION_def)
    have a: "advance 59999 ?s1 = ?s3"
      using advance_add [of 2000 57999 ?s1] by simp
    have b: "advance 60000 ?s1 = tick ?s3"
      using advance_add [of 59999 1 ?s1] a by simp
    from tick_cap [OF i3 _ cap3 c] i3 cl3 tr3
    show ?thesis
      by (simp add: a b ct blank_trim session_inv_def)
  qed
  have third: "calls (stopRecording \<lparr>c_isRecording = True, c_transcript = [0x68, 0x69]\<rparr>
      (onresult ?c batch_hi ?s0)) = [OnInputChange [0x68, 0x69], OnRecordingComplete [0x68, 0x69]]"
  proof -
    have "mediaRecorderRef (onresult ?c batch_hi ?s0) \<noteq> None"
      using onresult_inv(1) [OF i0, where ev = batch_hi and h = ?c]
      by (simp add: session_inv_def)
    then show ?thesis
      by (simp add: stopRecording_effect(3) truthy_trim_hi onresult_frame(1) cl0
          currentTranscript_batch_hi)
  qed
  from first second third show ?thesis
    by (simp add: onresult_frame currentTranscript_batch_hi)
qed

subsection \<open>The duration cap\<close>

text \<open>
  C5. A session starts recording at some time \<open>t\<close> (the duration effect runs, with a
  closure whose \<open>isRecording\<close> is true, on a session with a recorder and no pending
  timer) and then receives batches of results, each less than 2000 ms after the one
  before, so that no silence timeout ever runs; the batches and the closure of the
  handler are arbitrary. Then the session is recording at every instant before
  \<open>t + 60000\<close> and is stopped from \<open>t + 60000\<close> on: after the batches \<open>xs\<close> and
  \<open>n < 2000\<close> further milliseconds it is recording exactly when
  \<open>elapsed xs + n < 60000\<close>. Batches every 500 ms are one such session.
\<close>

theorem duration_cap_independent_of_silence:
  assumes "isRecording s" "mediaRecorderRef s \<noteq> None" "timers s = []"
    "silenceTimeoutRef s \<noteq> Some (nextId s)" "c_isRecording c"
    and "\<forall>(gap, ev) \<in> set xs. gap < 2000" "n < 2000"
  shows "isRecording (advance n (feed h xs (durationEffect c s))) \<longleftrightarrow>
           elapsed xs + n < 60000"
proof -
  let ?s0 = "durationEffect c s"
  let ?f = "feed h xs ?s0"
  have i0: "session_inv (now s) c (nextId s) [] ?s0" and n0: "now ?s0 = now s"
    using durationEffect_inv [OF assms(1-5)] by simp_all
  show ?thesis
  proof (cases "elapsed xs < MAX_RECORDING_DURATION")
    case False
    then have "\<not> isRecording ?f"
      using feed_capped [OF i0 n0 assms(5,6), of h] by simp
    then have "\<not> isRecording (advance n ?f)" using isRecording_advance by blast
    with False show ?thesis by (simp add: MAX_RECORDING_DURATION_def)
  next
    case True
    from feed_inv [OF i0 n0 assms(6) True, of h] obtain sil
      where inv: "session_inv (now s) c (nextId s) sil ?f"
        and nw: "now ?f = now s + elapsed xs"
        and du: "\<forall>t \<in> set sil. due t = now ?f + 2000"
      by blast
    have q: "\<forall>t \<in> set sil. now ?f + n < due t" using du assms(7) by simp
    show ?thesis
    proof (cases "elapsed xs + n < 60000")
      case True
      then have "session_inv (now s) c (nextId s) sil (advance n ?f)"
        using advance_quiet [OF inv q] nw by (simp add: MAX_RECORDING_DURATION_def)
      with True show ?thesis by (simp add: session_inv_def)
    next
      case False
      then have "\<not> isRecording (advance n ?f)"
        using advance_to_cap [OF inv q _ _ assms(5)] nw True
        by (simp add: MAX_RECORDING_DURATION_def)
      with False show ?thesis by simp
    qed
  qed
qed

theorem duration_cap_independent_of_silence_witness:
  "isRecording (advance 499 (feed idle_closure (replicate 119 (500, batch_hi))
      (durationEffect recording_closure started))) \<and>
   \<not> isRecording (advance 500 (feed idle_closure (replicate 119 (500, batch_hi))
      (durationEffect recording_closure started))) \<and>
   \<not> isRecording (feed recording_closure (replicate 120 (500, batch_hi))
      (durationEffect recording_closure started))"
proof -
  have c: "c_isRecording recording_closure" by (simp add: recording_closure_def)
  have e: "elapsed (replicate k (500::nat, batch_hi)) = 500 * k" for k
    by (induction k) (simp_all add: elapsed_def)
  have g: "\<forall>(gap, ev) \<in> set (replicate k (500::nat, batch_hi)). gap < 2000" for k
    by simp
  note u = duration_cap_independent_of_silence [OF started_fresh c]
  from u [OF g [of 119], where n = 499 and h = idle_closure]
    u [OF g [of 119], where n = 500 and h = idle_closure]
    u [OF g [of 120], where n = 0 and h = recording_closure]
  show ?thesis by (simp add: e)
qed

subsection \<open>The end of the recognizer's stream\<close>

text \<open>
  C6. Evaluation at the failing input. The recognizer that \<open>startRecording\<close> started
  ends while the session is recording. Its \<open>onend\<close> handler was installed by the
  render before the start and reads \<open>isRecording\<close> as false: it returns without
  starting a recognizer, both in the session as \<open>startRecording\<close> left it and in the
  session after the render that follows. The session is recording and no recognizer
  listens.
\<close>

theorem onend_no_restart_while_recording:
  "isRecording ended \<and> recognitionRef ended = Some Idle \<and>
   onend idle_closure ended = Returned ended \<and>
   isRecording recording_session \<and> recognitionRef recording_session = Some Idle \<and>
   onend idle_closure recording_session = Returned recording_session"
  using recording_session_inv(1)
  by (simp add: idle_handler ended_def started_facts recording_session_inv(4) session_inv_def)

subsection \<open>Recognition errors\<close>

text \<open>
  C7. Evaluation at the failing input. The recognizer that \<open>startRecording\<close> started
  reports \<open>no-speech\<close> while the session is recording. The error is logged and
  \<open>stopRecording\<close> is called, but it is the \<open>stopRecording\<close> of the render before the
  start, whose \<open>isRecording\<close> is false: its guard fails and nothing stops. The
  session is still recording 59999 ms later, and the duration cap stops it at
  60000 ms. Another error, \<open>network\<close>, is logged and changes nothing else. The same
  handler with the closure of a render in which \<open>isRecording\<close> is true stops the
  session.
\<close>

theorem no_speech_does_not_stop:
  "isRecording started \<and>
   onerror idle_closure ''no-speech'' started =
     started\<lparr>calls := [LogRecognitionError ''no-speech'']\<rparr> \<and>
   onerror idle_closure ''network'' started =
     started\<lparr>calls := [LogRecognitionError ''network'']\<rparr> \<and>
   isRecording (onerror idle_closure ''no-speech'' recording_session) \<and>
   isRecording (advance 59999 (onerror idle_closure ''no-speech'' recording_session)) \<and>
   \<not> isRecording (advance 60000 (onerror idle_closure ''no-speech'' recording_session)) \<and>
   \<not> isRecording (onerror recording_closure ''no-speech'' started)"
proof -
  let ?s = "onerror idle_closure ''no-speech'' recording_session"
  have c: "c_isRecording recording_closure" by (simp add: recording_closure_def)
  have i: "session_inv 0 recording_closure 3 [] ?s" and n: "now ?s = 0"
    using recording_session_inv(1,2) by (simp_all add: idle_handler session_inv_calls)
  have a: "isRecording ?s" using i by (simp add: session_inv_def)
  have b: "isRecording (advance 59999 ?s)"
    using advance_quiet [OF i, of 59999] n
    by (simp add: MAX_RECORDING_DURATION_def session_inv_def)
  have d: "\<not> isRecording (advance 60000 ?s)"
    using advance_to_cap [OF i, of 60000] n c by (simp add: MAX_RECORDING_DURATION_def)
  have e: "\<not> isRecording (onerror recording_closure ''no-speech'' started)"
    using stopRecording_stops(1) [OF _ c,
        of "started\<lparr>calls := calls started @ [LogRecognitionError ''no-speech'']\<rparr>"]
    by (simp add: onerror_def Let_def started_facts)
  show ?thesis using a b d e by (simp add: idle_handler started_facts)
qed

subsection \<open>Stopping twice\<close>


end
